theory Spec2Isabelle
  imports Complex_Main
begin

section \<open>Strings\<close>

text \<open>
  A JavaScript string is modelled as a list of 8-bit characters read as the code points
  U+0000 to U+00FF (Latin-1), which covers every character of the extractor's own
  patterns (ASCII, U+00DF in the German pattern, U+00A9 in the noise pattern). The
  length of a string is the length of the list.
\<close>

definition isWhiteSpace :: "char \<Rightarrow> bool" where
  \<comment> \<open>WhiteSpace and LineTerminator below U+0100: what \<open>\s\<close> matches and \<open>trim\<close> removes.\<close>
  "isWhiteSpace c =
     (c \<in> set [CHR 0x09, CHR 0x0A, CHR 0x0B, CHR 0x0C, CHR 0x0D, CHR '' '', CHR 0xA0])"

definition isLineTerminator :: "char \<Rightarrow> bool" where
  "isLineTerminator c = (c = CHR 0x0A \<or> c = CHR 0x0D)"

definition isDigit :: "char \<Rightarrow> bool" where
  "isDigit c = (c \<in> set ''0123456789'')"

definition toLowerChar :: "char \<Rightarrow> char" where
  \<comment> \<open>A-Z, and U+00C0 to U+00DE without the multiplication sign U+00D7.\<close>
  "toLowerChar c =
     (let n = (of_char c :: nat) in
      if (65 \<le> n \<and> n \<le> 90) \<or> (192 \<le> n \<and> n \<le> 222 \<and> n \<noteq> 215)
      then char_of (n + 32) else c)"

definition canonicalize :: "char \<Rightarrow> char" where
  \<comment> \<open>Canonicalize of a regular expression with the flag i and without the flag u: the
      upper-case character when it is a single character; U+00DF, U+00B5 and U+00FF have
      none below U+0100 and only match themselves.\<close>
  "canonicalize c =
     (let n = (of_char c :: nat) in
      if (97 \<le> n \<and> n \<le> 122) \<or> (224 \<le> n \<and> n \<le> 254 \<and> n \<noteq> 247)
      then char_of (n - 32) else c)"

definition toLowerCase :: "string \<Rightarrow> string" where
  "toLowerCase s = map toLowerChar s"

definition trim :: "string \<Rightarrow> string" where
  "trim s = rev (dropWhile isWhiteSpace (rev (dropWhile isWhiteSpace s)))"

definition startsWith :: "string \<Rightarrow> string \<Rightarrow> bool" where
  "startsWith s pre = (take (length pre) s = pre)"

definition endsWith :: "string \<Rightarrow> string \<Rightarrow> bool" where
  "endsWith s suf = (length suf \<le> length s \<and> drop (length s - length suf) s = suf)"

fun includesStr :: "string \<Rightarrow> string \<Rightarrow> bool" where
  "includesStr [] sub = (sub = [])"
| "includesStr (c # cs) sub = (startsWith (c # cs) sub \<or> includesStr cs sub)"

fun splitOn :: "char \<Rightarrow> string \<Rightarrow> string list" where
  "splitOn d [] = [[]]"
| "splitOn d (c # cs) =
     (if c = d then [] # splitOn d cs
      else (case splitOn d cs of
              [] \<Rightarrow> [[c]]
            | x # xs \<Rightarrow> (c # x) # xs))"

fun join :: "string \<Rightarrow> string list \<Rightarrow> string" where
  "join sep [] = []"
| "join sep [x] = x"
| "join sep (x # y # ys) = x @ sep @ join sep (y # ys)"

definition digitChar :: "nat \<Rightarrow> char" where
  "digitChar d = ''0123456789'' ! d"

function showNat :: "nat \<Rightarrow> string" where
  "showNat n = (if n < 10 then [digitChar n] else showNat (n div 10) @ [digitChar (n mod 10)])"
  by pat_completeness auto
termination
  by (relation "measure id") auto

declare showNat.simps [simp del]

section \<open>Regular expressions\<close>

text \<open>
  The constructs the extractor's regular expression literals use. A quantifier is always
  applied to a single-character atom in the source, except the optional groups, which are
  \<open>Opt\<close>. Capture groups are not modelled: the code only reads the whole match.
\<close>

datatype citem = IChar char | IRange char char | ISpace | INonSpace

datatype atom =
    Lit char                  \<comment> \<open>a pattern character\<close>
  | Dot                       \<comment> \<open>\<open>.\<close> without the flag s\<close>
  | Space                     \<comment> \<open>\<open>\s\<close>\<close>
  | Digit                     \<comment> \<open>\<open>\d\<close>\<close>
  | Class bool "citem list"   \<comment> \<open>\<open>[...]\<close>, negated when the flag is set\<close>

datatype greed = Greedy | Lazy

datatype regex =
    Empty
  | Atom atom
  | Seq regex regex
  | Alt regex regex
  | Opt regex                 \<comment> \<open>\<open>(?:r)?\<close>\<close>
  | Rep atom nat greed        \<comment> \<open>\<open>a{n,}\<close> and \<open>a{n,}?\<close>; \<open>*\<close> is n = 0, \<open>+\<close> is n = 1\<close>
  | Ahead regex               \<comment> \<open>\<open>(?=r)\<close>\<close>
  | Behind atom               \<comment> \<open>\<open>(?<=a)\<close>\<close>
  | Bol                       \<comment> \<open>\<open>^\<close> without the flag m\<close>
  | Eol                       \<comment> \<open>\<open>$\<close> without the flag m\<close>

fun citem_match :: "bool \<Rightarrow> citem \<Rightarrow> char \<Rightarrow> bool" where
  "citem_match ic (IChar a) c = (if ic then canonicalize c = canonicalize a else c = a)"
| "citem_match ic (IRange a b) c =
     (if ic then list_ex (\<lambda>n. canonicalize (char_of n) = canonicalize c)
                   [of_char a ..< Suc (of_char b)]
      else (of_char a :: nat) \<le> of_char c \<and> (of_char c :: nat) \<le> of_char b)"
| "citem_match ic ISpace c = isWhiteSpace c"
| "citem_match ic INonSpace c = (\<not> isWhiteSpace c)"

fun atom_match :: "bool \<Rightarrow> atom \<Rightarrow> char \<Rightarrow> bool" where
  "atom_match ic (Lit a) c = (if ic then canonicalize c = canonicalize a else c = a)"
| "atom_match ic Dot c = (\<not> isLineTerminator c)"
| "atom_match ic Space c = isWhiteSpace c"
| "atom_match ic Digit c = isDigit c"
| "atom_match ic (Class neg items) c = (list_ex (\<lambda>i. citem_match ic i c) items \<noteq> neg)"

text \<open>
  The backtracking matcher of the language specification, in continuation-passing style.
  A position is the character before it (\<open>None\<close> at the start of the input) and the
  input that remains; a continuation takes the position a construct stopped at and
  returns the position where the whole match ends, or \<open>None\<close> to make the construct
  backtrack.
\<close>

type_synonym mres = "(char option \<times> string) option"

type_synonym cont = "char option \<Rightarrow> string \<Rightarrow> mres"

fun rep_greedy :: "(char \<Rightarrow> bool) \<Rightarrow> nat \<Rightarrow> cont \<Rightarrow> char option \<Rightarrow> string \<Rightarrow> mres" where
  "rep_greedy f n k p [] = (if n = 0 then k p [] else None)"
| "rep_greedy f n k p (c # cs) =
     (if f c then
        (case rep_greedy f (n - 1) k (Some c) cs of
           Some r \<Rightarrow> Some r
         | None \<Rightarrow> if n = 0 then k p (c # cs) else None)
      else if n = 0 then k p (c # cs) else None)"

fun rep_lazy :: "(char \<Rightarrow> bool) \<Rightarrow> nat \<Rightarrow> cont \<Rightarrow> char option \<Rightarrow> string \<Rightarrow> mres" where
  "rep_lazy f n k p [] = (if n = 0 then k p [] else None)"
| "rep_lazy f n k p (c # cs) =
     (if n = 0 then
        (case k p (c # cs) of
           Some r \<Rightarrow> Some r
         | None \<Rightarrow> if f c then rep_lazy f 0 k (Some c) cs else None)
      else if f c then rep_lazy f (n - 1) k (Some c) cs else None)"

fun m :: "bool \<Rightarrow> regex \<Rightarrow> cont \<Rightarrow> char option \<Rightarrow> string \<Rightarrow> mres" where
  "m ic Empty k p s = k p s"
| "m ic (Atom a) k p s =
     (case s of [] \<Rightarrow> None | c # cs \<Rightarrow> if atom_match ic a c then k (Some c) cs else None)"
| "m ic (Seq a b) k p s = m ic a (\<lambda>p' s'. m ic b k p' s') p s"
| "m ic (Alt a b) k p s = (case m ic a k p s of Some r \<Rightarrow> Some r | None \<Rightarrow> m ic b k p s)"
| "m ic (Opt a) k p s = (case m ic a k p s of Some r \<Rightarrow> Some r | None \<Rightarrow> k p s)"
| "m ic (Rep a n Greedy) k p s = rep_greedy (atom_match ic a) n k p s"
| "m ic (Rep a n Lazy) k p s = rep_lazy (atom_match ic a) n k p s"
| "m ic (Ahead a) k p s =
     (case m ic a (\<lambda>p' s'. Some (p', s')) p s of Some r \<Rightarrow> k p s | None \<Rightarrow> None)"
| "m ic (Behind a) k p s =
     (case p of None \<Rightarrow> None | Some c \<Rightarrow> if atom_match ic a c then k p s else None)"
| "m ic Bol k p s = (if p = None then k p s else None)"
| "m ic Eol k p s = (if s = [] then k p s else None)"

definition match_here :: "bool \<Rightarrow> regex \<Rightarrow> char option \<Rightarrow> string \<Rightarrow> mres" where
  \<comment> \<open>a match that starts at this position: the position it ends at\<close>
  "match_here ic r p s = m ic r (\<lambda>p' s'. Some (p', s')) p s"

fun search :: "bool \<Rightarrow> regex \<Rightarrow> char option \<Rightarrow> string \<Rightarrow> (nat \<times> char option \<times> string) option" where
  \<comment> \<open>the leftmost match at or after this position: how many characters were skipped,
      and the position the match ends at\<close>
  "search ic r p [] =
     (case match_here ic r p [] of Some (p', s') \<Rightarrow> Some (0, p', s') | None \<Rightarrow> None)"
| "search ic r p (c # cs) =
     (case match_here ic r p (c # cs) of
        Some (p', s') \<Rightarrow> Some (0, p', s')
      | None \<Rightarrow>
         (case search ic r (Some c) cs of
            Some (i, p', s') \<Rightarrow> Some (Suc i, p', s')
          | None \<Rightarrow> None))"

subsection \<open>Writing the literals\<close>

definition seqs :: "regex list \<Rightarrow> regex" where
  "seqs rs = foldr Seq rs Empty"

definition lit :: "string \<Rightarrow> regex" where
  "lit s = seqs (map (\<lambda>c. Atom (Lit c)) s)"

fun alts :: "regex list \<Rightarrow> regex" where
  "alts [] = Empty"
| "alts [r] = r"
| "alts (r # rs) = Alt r (alts rs)"

definition words :: "string list \<Rightarrow> regex" where
  \<comment> \<open>\<open>(?:w1|w2|...)\<close>\<close>
  "words ws = alts (map lit ws)"

definition times :: "nat \<Rightarrow> atom \<Rightarrow> regex" where
  \<comment> \<open>\<open>a{n}\<close>\<close>
  "times n a = seqs (replicate n (Atom a))"

subsection \<open>The operations of RegExp and String the extractor calls\<close>

record jsregex =
  body :: regex
  ignoreCase :: bool
  global :: bool

definition test :: "jsregex \<Rightarrow> string \<Rightarrow> bool" where
  \<comment> \<open>\<open>re.test(s)\<close> for a regular expression without the flag g (no lastIndex is read)\<close>
  "test re s = (search (ignoreCase re) (body re) None s \<noteq> None)"

definition prevChar :: "string \<Rightarrow> nat \<Rightarrow> char option" where
  "prevChar text i = (if i = 0 then None else Some (text ! (i - 1)))"

definition exec :: "jsregex \<Rightarrow> string \<Rightarrow> nat \<Rightarrow> (string \<times> nat) option" where
  \<comment> \<open>\<open>re.exec(text)\<close> for a regular expression with the flag g whose lastIndex is the
      third argument: \<open>match[0]\<close> and the new lastIndex. When it returns null (\<open>None\<close>)
      lastIndex becomes 0.\<close>
  "exec re text lastIndex =
     (if length text < lastIndex then None
      else
        (case search (ignoreCase re) (body re) (prevChar text lastIndex) (drop lastIndex text) of
           None \<Rightarrow> None
         | Some (i, p', rest) \<Rightarrow>
             (let e = length text - length rest
              in Some (take (e - (lastIndex + i)) (drop (lastIndex + i) text), e))))"

function replaceFrom :: "bool \<Rightarrow> regex \<Rightarrow> string \<Rightarrow> char option \<Rightarrow> string \<Rightarrow> string" where
  "replaceFrom ic r repl p s =
     (case match_here ic r p s of
        Some (p', rest) \<Rightarrow>
          if length rest < length s then repl @ replaceFrom ic r repl p' rest
          else (case s of
                  [] \<Rightarrow> repl
                | c # cs \<Rightarrow> repl @ c # replaceFrom ic r repl (Some c) cs)
      | None \<Rightarrow>
          (case s of
             [] \<Rightarrow> []
           | c # cs \<Rightarrow> c # replaceFrom ic r repl (Some c) cs))"
  by pat_completeness auto
termination
  by (relation "measure (\<lambda>(ic, r, repl, p, s). length s)") auto

declare replaceFrom.simps [simp del]

definition replace :: "jsregex \<Rightarrow> string \<Rightarrow> string \<Rightarrow> string" where
  \<comment> \<open>\<open>text.replace(re, repl)\<close> for a replacement without \<open>$\<close>: every match with the
      flag g (an empty match advances by one character), the first one without\<close>
  "replace re repl text =
     (if global re then replaceFrom (ignoreCase re) (body re) repl None text
      else
        (case search (ignoreCase re) (body re) None text of
           None \<Rightarrow> text
         | Some (i, p', rest) \<Rightarrow> take i text @ repl @ rest))"

function splitFrom :: "bool \<Rightarrow> regex \<Rightarrow> char option \<Rightarrow> string \<Rightarrow> string \<Rightarrow> string list" where
  "splitFrom ic r p seg s =
     (case s of
        [] \<Rightarrow> [seg]
      | c # cs \<Rightarrow>
         (case match_here ic r p s of
            None \<Rightarrow> splitFrom ic r (Some c) (seg @ [c]) cs
          | Some (p', rest) \<Rightarrow>
              if length rest < length s then seg # splitFrom ic r p' [] rest
              else if seg = [] then splitFrom ic r (Some c) (seg @ [c]) cs
              else seg # splitFrom ic r p [] s))"
  by pat_completeness auto
termination
  by (relation "measures [\<lambda>(ic, r, p, seg, s). length s,
                          \<lambda>(ic, r, p, seg, s). if seg = [] then 0 else 1]") auto

declare splitFrom.simps [simp del]

definition split :: "jsregex \<Rightarrow> string \<Rightarrow> string list" where
  \<comment> \<open>\<open>text.split(re)\<close> for a regular expression without capture groups: \<open>seg\<close> is
      the text since the last separator, and a separator is looked for at every position
      but the end of the text\<close>
  "split re text =
     (if text = [] then
        (if match_here (ignoreCase re) (body re) None [] = None then [[]] else [])
      else splitFrom (ignoreCase re) (body re) None [] text)"

section \<open>The pattern tables of the extractor\<close>

definition re_gi :: "regex \<Rightarrow> jsregex" where
  "re_gi r = \<lparr>body = r, ignoreCase = True, global = True\<rparr>"

definition re_i :: "regex \<Rightarrow> jsregex" where
  "re_i r = \<lparr>body = r, ignoreCase = True, global = False\<rparr>"

definition re_g :: "regex \<Rightarrow> jsregex" where
  "re_g r = \<lparr>body = r, ignoreCase = False, global = True\<rparr>"

definition re_plain :: "regex \<Rightarrow> jsregex" where
  "re_plain r = \<lparr>body = r, ignoreCase = False, global = False\<rparr>"

definition upToStop :: "nat \<Rightarrow> regex list" where
  \<comment> \<open>\<open>(.{n,}?)(?:\.|$)\<close>\<close>
  "upToStop n = [Rep Dot n Lazy, Alt (lit ''.'') Eol]"

definition spaces1 :: regex where
  \<comment> \<open>\<open>\s+\<close>\<close>
  "spaces1 = Rep Space 1 Greedy"

definition anything :: atom where
  \<comment> \<open>\<open>[\s\S]\<close>\<close>
  "anything = Class False [ISpace, INonSpace]"

definition GAP_PATTERNS :: "jsregex list" where
  "GAP_PATTERNS =
   [re_gi (seqs ([lit ''I wonder'', spaces1] @ upToStop 15)),
    re_gi (seqs ([lit ''I'm curious'', spaces1, Opt (seqs [lit ''about'', spaces1])]
                 @ upToStop 15)),
    re_gi (seqs ([lit ''I don't '', Opt (lit ''fully ''), lit ''understand'', spaces1]
                 @ upToStop 15)),
    re_gi (seqs ([lit ''I '', words [''need'', ''want''], lit '' to '',
                  words [''learn'', ''know'', ''explore'', ''understand''], spaces1]
                 @ upToStop 15)),
    re_gi (seqs ([lit ''I'm not sure '',
                  words [''about '', ''whether '', ''if '', ''how '', ''why '']]
                 @ upToStop 15)),
    re_gi (seqs [words [''how'', ''why'', ''what'', ''when'', ''where''], lit '' '',
                 words [''does'', ''do'', ''did'', ''is'', ''are'', ''was'', ''were'', ''would'',
                        ''could'', ''should'', ''can'', ''might''],
                 lit '' '', Rep Dot 10 Greedy, lit ''?'']),
    re_gi (seqs ([lit ''ich frage mich'', spaces1] @ upToStop 15)),
    re_gi (seqs ([lit ''ich '', words [''muss'', ''will''], lit '' '',
                  words [''lernen'', ''wissen'', ''verstehen'', ''erfahren''], spaces1]
                 @ upToStop 15)),
    re_gi (seqs ([lit ''ich bin mir '', Opt (lit ''nicht ''),
                  words [''sicher'', ''klar'', ''bewusst''],
                  alts [seqs [Opt (lit '',''), lit '' ob ''], lit '' wie '', lit '' warum '',
                        lit '' was '']]
                 @ upToStop 10)),
    re_gi (seqs ([lit ''ich verstehe '', Opt (words [''nicht '', ''kaum ''])] @ upToStop 15)),
    re_gi (seqs [lit ''wie '', words [''funktioniert'', ''geht'', ''kann'', ''soll'', ''musst''],
                 lit '' '', Rep Dot 10 Greedy, lit ''?'']),
    re_gi (seqs [lit ''warum '', Rep Dot 10 Greedy, lit ''?'']),
    re_gi (seqs [lit ''was '',
                 words [''bedeutet'', ''ist'', ''hei'' @ [CHR 0xDF] @ ''t'', ''macht''],
                 lit '' '', Rep Dot 10 Greedy, lit ''?'']),
    re_gi (seqs [lit ''keine ahnung '', words [''wie'', ''warum'', ''was'', ''wo'', ''wann''],
                 lit '' '', Rep Dot 10 Greedy])]"

definition FILTER_PATTERNS :: "jsregex list" where
  "FILTER_PATTERNS =
   [re_i (seqs [Bol, words [''would you'', ''do you'', ''can you'', ''should I'', ''shall I'',
                            ''could I'', ''want me to'', ''let me'']]),
    re_i (seqs [Bol, words [''is that'', ''does that'', ''are you'', ''how about'',
                            ''what if I'']]),
    re_i (seqs [Bol, words [''ready'', ''okay'', ''alright'', ''sure'', ''got it'',
                            ''understood'']]),
    re_i (seqs [Bol, words [''those'', ''these'', ''that'', ''what about those'',
                            ''ever notice'', ''imagine'', ''picture this'']]),
    re_i (seqs [Bol, words [''isn't it'', ''aren't they'', ''doesn't it'', ''don't they'',
                            ''wouldn't it'', ''won't they'']]),
    re_i (seqs [Bol, words [''who doesn't'', ''who wouldn't'', ''who hasn't'']]),
    re_i (seqs [Bol, words [''sound familiar'', ''ring a bell'', ''know the feeling'']])]"

definition DOCUMENT_NOISE_PATTERNS :: "jsregex list" where
  "DOCUMENT_NOISE_PATTERNS =
   [re_i (seqs [words [''chapter'', ''section'', ''page'', ''figure'', ''table''], spaces1,
                Atom Digit]),
    re_i (words [[CHR 0xA9], ''copyright'', ''all rights reserved'', ''terms of service'',
                 ''privacy policy'']),
    re_i (words [''click here'', ''learn more'', ''sign up'', ''subscribe'', ''download now'',
                 ''get started'']),
    re_i (alts [lit ''www.'', seqs [lit ''http'', Opt (lit ''s''), lit ''://'']])]"

definition CONTEXT_BLOCK_PATTERN :: jsregex where
  "CONTEXT_BLOCK_PATTERN =
     re_gi (seqs [lit ''['',
                  words [''CONTINUITY CONTEXT'', ''STABILITY CONTEXT'', ''GROWTH VECTORS'',
                         ''MEMORY INTEGRATION''],
                  lit '']'', Rep anything 0 Lazy,
                  Ahead (Alt (seqs [lit ''['',
                                    words [''CONTINUITY'', ''STABILITY'', ''GROWTH'', ''MEMORY'']])
                              Eol)])"

definition TIMESTAMP_PREFIX :: jsregex where
  "TIMESTAMP_PREFIX =
     re_plain (seqs [Bol, lit ''['',
                     words [''Mon'', ''Tue'', ''Wed'', ''Thu'', ''Fri'', ''Sat'', ''Sun''],
                     lit '' '', times 4 Digit, lit ''-'', times 2 Digit, lit ''-'',
                     times 2 Digit, lit '' '', times 2 Digit, lit '':'', times 2 Digit,
                     lit '' '', Rep (Class False [IRange CHR ''A'' CHR ''Z'']) 1 Greedy,
                     lit '']'', Rep Space 0 Greedy])"

text \<open>The regular expression literals written in place in the source.\<close>

definition CODE_FENCE :: jsregex where
  \<comment> \<open>three backquotes, \<open>[\s\S]*?\<close>, three backquotes; flag g\<close>
  "CODE_FENCE =
     re_g (seqs [lit (replicate 3 (CHR 0x60)), Rep anything 0 Lazy, lit (replicate 3 (CHR 0x60))])"

definition TABLE_ROW :: jsregex where
  \<comment> \<open>\<open>\|[^\n]+\|\<close>, flag g\<close>
  "TABLE_ROW = re_g (seqs [lit ''|'', Rep (Class True [IChar (CHR 0x0A)]) 1 Greedy, lit ''|''])"

definition WHITESPACE_RUN :: jsregex where
  \<comment> \<open>\<open>\s+\<close>, flag g\<close>
  "WHITESPACE_RUN = re_g spaces1"

definition SENTENCE_BREAK :: jsregex where
  \<comment> \<open>\<open>(?<=[.!?])\s+\<close>\<close>
  "SENTENCE_BREAK =
     re_plain (seqs [Behind (Class False [IChar CHR ''.'', IChar CHR ''!'', IChar CHR ''?'']),
                     spaces1])"

definition INQUIRY_WH :: jsregex where
  "INQUIRY_WH =
     re_i (seqs [words [''how'', ''why'', ''what'', ''where'', ''when'', ''who'', ''which''],
                 spaces1,
                 words [''does'', ''do'', ''did'', ''is'', ''are'', ''was'', ''were'', ''would'',
                        ''could'', ''should'', ''can'', ''might'', ''will'', ''has'', ''have'',
                        ''had'']])"

definition INQUIRY_PRONOUN :: jsregex where
  "INQUIRY_PRONOUN =
     re_i (seqs [words [''I'', ''we'', ''you''], spaces1,
                 words [''wonder'', ''don't'', ''need'', ''want'', ''should'', ''could'']])"

section \<open>Values\<close>

text \<open>
  What a caller can pass as a message, a message's content or a content part. A number
  is given by the string \<open>String\<close> prints for it (the extractor reads nothing else of a
  number: it is falsy when it prints as 0 or as NaN); objects are plain objects, as
  lists of own fields, each field listed once, and no field holds a function.
\<close>

datatype jsval =
    JUndefined
  | JNull
  | JBool bool
  | JNum string
  | JStr string
  | JArr "jsval list"
  | JObj "(string \<times> jsval) list"

datatype failure =
    TypeError    \<comment> \<open>a property of null or undefined is read, or an object has no
                     string form\<close>
  | NoReturn     \<comment> \<open>a loop never ends\<close>

definition nullish :: "jsval \<Rightarrow> bool" where
  "nullish v = (v = JUndefined \<or> v = JNull)"

fun truthy :: "jsval \<Rightarrow> bool" where
  "truthy JUndefined = False"
| "truthy JNull = False"
| "truthy (JBool b) = b"
| "truthy (JNum n) = (n \<noteq> ''0'' \<and> n \<noteq> ''NaN'')"
| "truthy (JStr s) = (s \<noteq> [])"
| "truthy (JArr xs) = True"
| "truthy (JObj fs) = True"

fun getProp :: "jsval \<Rightarrow> string \<Rightarrow> jsval" where
  \<comment> \<open>\<open>v.key\<close> for a value that is not null or undefined, and a key (role, content,
      text) that no primitive value and no array defines\<close>
  "getProp (JObj fs) key = (case map_of fs key of Some v \<Rightarrow> v | None \<Rightarrow> JUndefined)"
| "getProp v key = JUndefined"

definition optProp :: "jsval \<Rightarrow> string \<Rightarrow> jsval" where
  \<comment> \<open>\<open>v?.key\<close>\<close>
  "optProp v key = (if nullish v then JUndefined else getProp v key)"

definition jsOr :: "jsval \<Rightarrow> jsval \<Rightarrow> jsval" where
  \<comment> \<open>\<open>a || b\<close>\<close>
  "jsOr a b = (if truthy a then a else b)"

fun collect :: "(failure + 'a) list \<Rightarrow> failure + 'a list" where
  \<comment> \<open>the results of the steps of a loop that stops at the first throw\<close>
  "collect [] = Inr []"
| "collect (x # xs) =
     (case x of
        Inl e \<Rightarrow> Inl e
      | Inr v \<Rightarrow> (case collect xs of Inl e \<Rightarrow> Inl e | Inr vs \<Rightarrow> Inr (v # vs)))"

fun toString :: "jsval \<Rightarrow> failure + string" where
  \<comment> \<open>\<open>String(v)\<close>. An array prints its elements joined by commas, null and undefined
      elements as nothing. A plain object prints through Object.prototype.toString; an
      own field \<open>toString\<close> hides it, is not a function, and the built-in valueOf
      returns the object itself, so the conversion throws.\<close>
  "toString JUndefined = Inr ''undefined''"
| "toString JNull = Inr ''null''"
| "toString (JBool b) = Inr (if b then ''true'' else ''false'')"
| "toString (JNum n) = Inr n"
| "toString (JStr s) = Inr s"
| "toString (JArr xs) =
     (case collect (map (\<lambda>x. if x = JUndefined \<or> x = JNull then Inr [] else toString x) xs) of
        Inl e \<Rightarrow> Inl e
      | Inr ss \<Rightarrow> Inr (join '','' ss))"
| "toString (JObj fs) =
     (if ''toString'' \<in> fst ` set fs then Inl TypeError else Inr ''[object Object]'')"

definition arrayJoin :: "string \<Rightarrow> jsval list \<Rightarrow> failure + string" where
  \<comment> \<open>\<open>xs.join(sep)\<close>\<close>
  "arrayJoin sep xs =
     (case collect (map (\<lambda>x. if nullish x then Inr [] else toString x) xs) of
        Inl e \<Rightarrow> Inl e
      | Inr ss \<Rightarrow> Inr (join sep ss))"

section \<open>The extractor\<close>

definition normalizeText :: "jsval \<Rightarrow> failure + string" where
  "normalizeText msg =
     (if \<not> truthy msg then Inr []
      else
        (case getProp msg ''content'' of
           JStr s \<Rightarrow> Inr s
         | JArr parts \<Rightarrow>
             arrayJoin '' ''
               (map (\<lambda>part. jsOr (jsOr (optProp part ''text'') (optProp part ''content''))
                                 (JStr []))
                    parts)
         | c \<Rightarrow> toString (jsOr c (JStr []))))"

definition injectedLine :: "string \<Rightarrow> bool" where
  \<comment> \<open>the lines the filter of stripContextBlocks drops\<close>
  "injectedLine line =
     (let trimmed = trim line in
      startsWith trimmed ''Entropy:'' \<or>
      startsWith trimmed ''Principles:'' \<or>
      startsWith trimmed ''Session:'' \<or>
      startsWith trimmed ''Topics:'' \<or>
      startsWith trimmed ''Speak from this memory'' \<or>
      startsWith trimmed ''- They told you:'' \<or>
      startsWith trimmed ''  You said:'' \<or>
      startsWith trimmed ''You remember these earlier'')"

definition stripContextBlocks :: "string \<Rightarrow> string" where
  "stripContextBlocks text =
     (let cleaned = replace CONTEXT_BLOCK_PATTERN [] text;
          cleaned = replace TIMESTAMP_PREFIX [] cleaned
      in trim (join [CHR 0x0A]
                 (filter (\<lambda>line. \<not> injectedLine line) (splitOn (CHR 0x0A) cleaned))))"

definition normalized :: "string \<Rightarrow> string" where
  \<comment> \<open>\<open>gap.toLowerCase().replace(/\s+/g, ' ')\<close>\<close>
  "normalized gap = replace WHITESPACE_RUN '' '' (toLowerCase gap)"

datatype loop_out =
    Continue "string list" "string set"   \<comment> \<open>the loop ended: gaps and seen\<close>
  | Return "string list"                  \<comment> \<open>\<open>return gaps\<close> inside the loop\<close>
  | Hang                                  \<comment> \<open>the loop never ends\<close>

text \<open>
  The loop \<open>while ((match = pattern.exec(text)) !== null)\<close> of one pattern, from the
  pattern's lastIndex. When a match leaves lastIndex where it was, the match is empty,
  its trimmed length is below 15, and the next call of exec is the same call: the loop
  never ends. The result holds the pattern's lastIndex after the loop.
\<close>

function pattern_loop ::
  "string \<Rightarrow> int \<Rightarrow> jsregex \<Rightarrow> nat \<Rightarrow> string list \<Rightarrow> string set \<Rightarrow> loop_out \<times> nat" where
  "pattern_loop text maxCount pattern lastIndex gaps seen =
     (case exec pattern text lastIndex of
        None \<Rightarrow> (Continue gaps seen, 0)
      | Some (match0, lastIndex') \<Rightarrow>
          if lastIndex' \<le> lastIndex then (Hang, lastIndex')
          else
            (let gap = trim match0 in
             if length gap < 15 then pattern_loop text maxCount pattern lastIndex' gaps seen
             else if list_ex (\<lambda>f. test f gap) FILTER_PATTERNS
             then pattern_loop text maxCount pattern lastIndex' gaps seen
             else if normalized gap \<in> seen
             then pattern_loop text maxCount pattern lastIndex' gaps seen
             else if maxCount \<le> int (length (gaps @ [gap]))
             then (Return (gaps @ [gap]), lastIndex')
             else pattern_loop text maxCount pattern lastIndex' (gaps @ [gap])
                    (insert (normalized gap) seen)))"
  by pat_completeness auto
termination
  by (relation "measure (\<lambda>(text, maxCount, pattern, lastIndex, gaps, seen).
                  length text - lastIndex)")
     (auto simp: exec_def Let_def split: if_splits option.splits)

declare pattern_loop.simps [simp del]

text \<open>
  Pass 1: the loop over GAP_PATTERNS. \<open>st\<close> holds the lastIndex of every pattern, in the
  order of the table; the loop sets a pattern's lastIndex to 0 before its first exec.
\<close>

fun pass1 ::
  "string \<Rightarrow> int \<Rightarrow> jsregex list \<Rightarrow> nat \<Rightarrow> nat list \<Rightarrow> string list \<Rightarrow> string set
     \<Rightarrow> loop_out \<times> nat list" where
  "pass1 text maxCount [] i st gaps seen = (Continue gaps seen, st)"
| "pass1 text maxCount (pattern # patterns) i st gaps seen =
     (case pattern_loop text maxCount pattern 0 gaps seen of
        (out, lastIndex) \<Rightarrow>
          (case out of
             Continue gaps' seen' \<Rightarrow>
               pass1 text maxCount patterns (Suc i) (st[i := lastIndex]) gaps' seen'
           | Return gaps' \<Rightarrow> (Return gaps', st[i := lastIndex])
           | Hang \<Rightarrow> (Hang, st[i := lastIndex])))"

text \<open>Pass 2: the loop over the sentences.\<close>

fun pass2 :: "int \<Rightarrow> string list \<Rightarrow> string list \<Rightarrow> string set \<Rightarrow> string list" where
  "pass2 maxCount [] gaps seen = gaps"
| "pass2 maxCount (sentence # sentences) gaps seen =
     (let trimmed = trim sentence in
      if \<not> endsWith trimmed ''?'' then pass2 maxCount sentences gaps seen
      else if length trimmed < 30 then pass2 maxCount sentences gaps seen
      else if list_ex (\<lambda>f. test f trimmed) FILTER_PATTERNS
      then pass2 maxCount sentences gaps seen
      else if list_ex (\<lambda>f. test f trimmed) DOCUMENT_NOISE_PATTERNS
      then pass2 maxCount sentences gaps seen
      else if \<not> test INQUIRY_WH trimmed \<and> \<not> test INQUIRY_PRONOUN trimmed
      then pass2 maxCount sentences gaps seen
      else if normalized trimmed \<in> seen then pass2 maxCount sentences gaps seen
      else if maxCount \<le> int (length (gaps @ [trimmed])) then gaps @ [trimmed]
      else pass2 maxCount sentences (gaps @ [trimmed]) (insert (normalized trimmed) seen))"

definition extractGapsFromText ::
  "string \<Rightarrow> int \<Rightarrow> nat list \<Rightarrow> failure + string list \<times> nat list" where
  "extractGapsFromText text maxCount st =
     (case pass1 text maxCount GAP_PATTERNS 0 st [] {} of
        (out, st') \<Rightarrow>
          (case out of
             Return gaps \<Rightarrow> Inr (gaps, st')
           | Hang \<Rightarrow> Inl NoReturn
           | Continue gaps seen \<Rightarrow>
               Inr (pass2 maxCount (split SENTENCE_BREAK text) gaps seen, st')))"

subsection \<open>The entry point\<close>

text \<open>
  The fields of extractionConfig, \<open>None\<close> for a field that is absent: the threshold
  is a number, the keywords are strings and the cap is an integer.
\<close>

record extraction_config =
  entropyThreshold :: "real option"
  keywordList :: "string list option"
  maxGapsPerExchange :: "int option"

record params =
  messages :: "jsval list"
  entropy :: "real option"
  extractionConfig :: extraction_config
  source :: "string option"

record gap =
  gap_id :: string
  question :: string
  gap_source :: string
  gap_context :: string
  gap_entropy :: real

text \<open>
  The clock: what \<open>Date.now()\<close> and \<open>new Date().toISOString()\<close> return in the
  callback that wraps the question of a given index. A reading of \<open>Date.now()\<close> is
  an integer of at most 16 digits, which a template literal prints in decimal.
\<close>

record clock =
  dateNow :: "nat \<Rightarrow> nat"
  isoNow :: "nat \<Rightarrow> string"

definition slice_last :: "nat \<Rightarrow> 'a list \<Rightarrow> 'a list" where
  \<comment> \<open>\<open>xs.slice(-n)\<close>\<close>
  "slice_last n xs = drop (length xs - n) xs"

text \<open>
  The loop over recentMessages that fills conversationParts. Reading \<open>msg.role\<close> of
  a null or undefined entry throws, and so does normalizeText on content that has no
  string form.
\<close>

fun conversationParts :: "jsval list \<Rightarrow> failure + string list" where
  "conversationParts [] = Inr []"
| "conversationParts (msg # msgs) =
     (if nullish msg then Inl TypeError
      else if getProp msg ''role'' \<noteq> JStr ''user'' then conversationParts msgs
      else
        (case normalizeText msg of
           Inl e \<Rightarrow> Inl e
         | Inr text \<Rightarrow>
             if text = [] then conversationParts msgs
             else
               (let cleaned = stripContextBlocks text;
                    cleaned = replace CODE_FENCE [] cleaned;
                    cleaned = replace TABLE_ROW [] cleaned
                in if 10 < length cleaned
                   then (case conversationParts msgs of
                           Inl e \<Rightarrow> Inl e
                         | Inr parts \<Rightarrow> Inr (cleaned # parts))
                   else conversationParts msgs)))"

definition unreadable :: "jsval \<Rightarrow> bool" where
  \<comment> \<open>the entries on which the loop throws\<close>
  "unreadable msg \<longleftrightarrow>
     nullish msg \<or>
     (getProp msg ''role'' = JStr ''user'' \<and> normalizeText msg = Inl TypeError)"

definition corpus :: "jsval list \<Rightarrow> failure + string" where
  \<comment> \<open>conversationText: the parts of the last six messages, joined by an empty line\<close>
  "corpus msgs =
     (case conversationParts (slice_last 6 msgs) of
        Inl err \<Rightarrow> Inl err
      | Inr parts \<Rightarrow> Inr (join [CHR 0x0A, CHR 0x0A] parts))"

definition entropyOf :: "params \<Rightarrow> real" where
  \<comment> \<open>the default parameter \<open>entropy = 0\<close>\<close>
  "entropyOf a = (case entropy a of None \<Rightarrow> 0 | Some x \<Rightarrow> x)"

definition thresholdOf :: "extraction_config \<Rightarrow> real" where
  \<comment> \<open>\<open>extractionConfig.entropyThreshold ?? 0.5\<close>\<close>
  "thresholdOf cfg = (case entropyThreshold cfg of None \<Rightarrow> 0.5 | Some t \<Rightarrow> t)"

definition keywordsOf :: "extraction_config \<Rightarrow> string list" where
  \<comment> \<open>\<open>extractionConfig.keywords || []\<close>\<close>
  "keywordsOf cfg = (case keywordList cfg of None \<Rightarrow> [] | Some ks \<Rightarrow> ks)"

definition maxGapsOf :: "extraction_config \<Rightarrow> int" where
  \<comment> \<open>\<open>extractionConfig.maxGapsPerExchange || 2\<close>: 0 is falsy\<close>
  "maxGapsOf cfg =
     (case maxGapsPerExchange cfg of None \<Rightarrow> 2 | Some n \<Rightarrow> if n = 0 then 2 else n)"

definition keywordHit :: "string list \<Rightarrow> string \<Rightarrow> bool" where
  "keywordHit kws conversationText =
     (let lowered = toLowerCase conversationText
      in list_ex (\<lambda>k. includesStr lowered (toLowerCase k)) kws)"

definition wrap :: "clock \<Rightarrow> params \<Rightarrow> string \<Rightarrow> nat \<times> string \<Rightarrow> gap" where
  \<comment> \<open>the callback of \<open>questions.map\<close>\<close>
  "wrap clk a conversationText iq =
     (case iq of
        (idx, q) \<Rightarrow>
          \<lparr>gap_id = ''gap_'' @ showNat (dateNow clk idx) @ ''_'' @ showNat idx,
           question = q,
           gap_source =
             (case source a of
                None \<Rightarrow> ''exchange_'' @ isoNow clk idx
              | Some src \<Rightarrow> if src = [] then ''exchange_'' @ isoNow clk idx else src),
           gap_context = take 1200 conversationText,
           gap_entropy = entropyOf a\<rparr>)"

text \<open>
  identifyGaps, with the clock it reads and the lastIndex of the GAP_PATTERNS before the
  call; it returns the gaps and the lastIndex of the GAP_PATTERNS after the call. A list
  of messages that is absent reads as the empty list.
\<close>

definition identifyGaps ::
  "clock \<Rightarrow> nat list \<Rightarrow> params \<Rightarrow> failure + gap list \<times> nat list" where
  "identifyGaps clk st a =
     (case corpus (messages a) of
        Inl err \<Rightarrow> Inl err
      | Inr conversationText \<Rightarrow>
          if conversationText = [] then Inr ([], st)
          else if entropyOf a < thresholdOf (extractionConfig a)
                  \<and> \<not> keywordHit (keywordsOf (extractionConfig a)) conversationText
          then Inr ([], st)
          else
            (case extractGapsFromText conversationText (maxGapsOf (extractionConfig a)) st of
               Inl err \<Rightarrow> Inl err
             | Inr (questions, st') \<Rightarrow>
                 Inr (map (wrap clk a conversationText) (enumerate 0 questions), st')))"

definition questionsOf :: "failure + gap list \<times> nat list \<Rightarrow> failure + string list" where
  \<comment> \<open>the gap strings of a result\<close>
  "questionsOf res =
     (case res of Inl err \<Rightarrow> Inl err | Inr (gaps, st) \<Rightarrow> Inr (map question gaps))"

section \<open>Notions of the proofs\<close>

text \<open>The least number of characters a match of a regular expression consumes.\<close>

fun minlen :: "regex \<Rightarrow> nat" where
  "minlen Empty = 0"
| "minlen (Atom a) = 1"
| "minlen (Seq a b) = minlen a + minlen b"
| "minlen (Alt a b) = min (minlen a) (minlen b)"
| "minlen (Opt a) = 0"
| "minlen (Rep a n g) = n"
| "minlen (Ahead a) = 0"
| "minlen (Behind a) = 0"
| "minlen Bol = 0"
| "minlen Eol = 0"

text \<open>What makes the loop of a pattern go on to the next match without a new gap.\<close>

definition rejects :: "string \<Rightarrow> string set \<Rightarrow> bool" where
  "rejects gap seen \<longleftrightarrow>
     length gap < 15 \<or> list_ex (\<lambda>f. test f gap) FILTER_PATTERNS \<or> normalized gap \<in> seen"

text \<open>
  What the two loops keep: the normalized forms of the gaps are pairwise different and
  all in \<open>seen\<close>, and the gaps are fewer than the cap (than one, for a cap below one).
\<close>

definition loop_inv :: "int \<Rightarrow> string list \<Rightarrow> string set \<Rightarrow> bool" where
  "loop_inv n gaps seen \<longleftrightarrow>
     distinct (map normalized gaps) \<and> normalized ` set gaps \<subseteq> seen \<and>
     int (length gaps) < max 1 n"

definition result_ok :: "int \<Rightarrow> string list \<Rightarrow> bool" where
  "result_ok n gaps \<longleftrightarrow> distinct (map normalized gaps) \<and> int (length gaps) \<le> max 1 n"

definition out_ok :: "int \<Rightarrow> loop_out \<Rightarrow> bool" where
  "out_ok n out =
     (case out of
        Continue gaps seen \<Rightarrow> loop_inv n gaps seen
      | Return gaps \<Rightarrow> result_ok n gaps
      | Hang \<Rightarrow> False)"

text \<open>The fields of a gap that do not hold a reading of the clock.\<close>

definition stableFields :: "gap \<Rightarrow> string \<times> string \<times> real" where
  "stableFields g = (question g, gap_context g, gap_entropy g)"

text \<open>The headers of CONTEXT_BLOCK_PATTERN, as the pattern writes them.\<close>

definition blockHeaders :: "string list" where
  "blockHeaders =
     [''CONTINUITY CONTEXT'', ''STABILITY CONTEXT'', ''GROWTH VECTORS'', ''MEMORY INTEGRATION'']"

section \<open>Inputs of the scenarios\<close>

definition userMessage :: "string \<Rightarrow> jsval" where
  "userMessage s = JObj [(''role'', JStr ''user''), (''content'', JStr s)]"

definition tidalQuestion :: string where
  "tidalQuestion =
     ''I wonder how the tidal patterns actually affect migration timing for arctic terns.''"

definition cascadesHere :: string where
  "cascadesHere = ''I don't fully understand how the error handling cascades here.''"

definition cascades :: string where
  "cascades = ''I don't fully understand how the error handling cascades.''"

definition injectedBlock :: string where
  "injectedBlock =
     ''[CONTINUITY CONTEXT]'' @ [CHR 0x0A] @ ''Session: 3 exchanges'' @ [CHR 0x0A, CHR 0x0A]"

definition clockAt :: "nat \<Rightarrow> clock" where
  "clockAt t = \<lparr>dateNow = (\<lambda>idx. t), isoNow = (\<lambda>idx. [])\<rparr>"

definition exchange :: "string list \<Rightarrow> int option \<Rightarrow> params" where
  \<comment> \<open>user messages with entropy 0.8, threshold 0.5, no keyword and the given cap\<close>
  "exchange ss cap =
     \<lparr>messages = map userMessage ss, entropy = Some 0.8,
      extractionConfig =
        \<lparr>entropyThreshold = Some 0.5, keywordList = None, maxGapsPerExchange = cap\<rparr>,
      source = None\<rparr>"

section \<open>Evaluation\<close>

text \<open>
  The case mappings on the bits of a character, for evaluation: they are the mappings
  defined on the code points.
\<close>

lemma toLowerChar_bits [code]:
  "toLowerChar (Char b0 b1 b2 b3 b4 b5 b6 b7) =
     (if \<not> b5 \<and> b6 \<and>
         ((\<not> b7 \<and> (b0 \<or> b1 \<or> b2 \<or> b3 \<or> b4) \<and> \<not> (b4 \<and> b3 \<and> (b2 \<or> (b1 \<and> b0)))) \<or>
          (b7 \<and> \<not> (b0 \<and> b1 \<and> b2 \<and> b4)))
      then Char b0 b1 b2 b3 b4 True b6 b7
      else Char b0 b1 b2 b3 b4 b5 b6 b7)"
  by (cases b0; cases b1; cases b2; cases b3; cases b4; cases b5; cases b6; cases b7;
      simp add: toLowerChar_def char_of_eq_iff)

lemma canonicalize_bits [code]:
  "canonicalize (Char b0 b1 b2 b3 b4 b5 b6 b7) =
     (if b5 \<and> b6 \<and>
         ((\<not> b7 \<and> (b0 \<or> b1 \<or> b2 \<or> b3 \<or> b4) \<and> \<not> (b4 \<and> b3 \<and> (b2 \<or> (b1 \<and> b0)))) \<or>
          (b7 \<and> \<not> (b0 \<and> b1 \<and> b2 \<and> b4)))
      then Char b0 b1 b2 b3 b4 False b6 b7
      else Char b0 b1 b2 b3 b4 b5 b6 b7)"
  by (cases b0; cases b1; cases b2; cases b3; cases b4; cases b5; cases b6; cases b7;
      simp add: canonicalize_def char_of_eq_iff)

section \<open>Every match of a gap pattern consumes input\<close>

lemma rep_greedy_consumes:
  "rep_greedy f n k p s = Some res \<Longrightarrow>
     \<exists>p' s' w. k p' s' = Some res \<and> s = w @ s' \<and> n \<le> length w"
proof (induction s arbitrary: n p)
  case Nil
  then show ?case by (auto split: if_splits)
next
  case (Cons c cs)
  show ?case
  proof (cases "f c \<and> rep_greedy f (n - 1) k (Some c) cs \<noteq> None")
    case True
    with Cons.prems have "rep_greedy f (n - 1) k (Some c) cs = Some res"
      by (auto split: option.splits)
    from Cons.IH[OF this] obtain p' s' w
      where "k p' s' = Some res" "cs = w @ s'" "n - 1 \<le> length w" by blast
    then have "k p' s' = Some res \<and> c # cs = (c # w) @ s' \<and> n \<le> length (c # w)"
      by auto
    then show ?thesis by blast
  next
    case False
    with Cons.prems have "n = 0" "k p (c # cs) = Some res"
      by (auto split: if_splits option.splits)
    then have "k p (c # cs) = Some res \<and> c # cs = [] @ (c # cs) \<and> n \<le> length ([]::string)"
      by simp
    then show ?thesis by blast
  qed
qed

lemma rep_lazy_consumes:
  "rep_lazy f n k p s = Some res \<Longrightarrow>
     \<exists>p' s' w. k p' s' = Some res \<and> s = w @ s' \<and> n \<le> length w"
proof (induction s arbitrary: n p)
  case Nil
  then show ?case by (auto split: if_splits)
next
  case (Cons c cs)
  show ?case
  proof (cases "k p (c # cs) = Some res \<and> n = 0")
    case True
    then have "k p (c # cs) = Some res \<and> c # cs = [] @ (c # cs) \<and> n \<le> length ([]::string)"
      by simp
    then show ?thesis by blast
  next
    case False
    with Cons.prems have "rep_lazy f (n - 1) k (Some c) cs = Some res"
      by (auto split: if_splits option.splits)
    from Cons.IH[OF this] obtain p' s' w
      where "k p' s' = Some res" "cs = w @ s'" "n - 1 \<le> length w" by blast
    then have "k p' s' = Some res \<and> c # cs = (c # w) @ s' \<and> n \<le> length (c # w)"
      by auto
    then show ?thesis by blast
  qed
qed

lemma m_consumes:
  "m ic r k p s = Some res \<Longrightarrow>
     \<exists>p' s' w. k p' s' = Some res \<and> s = w @ s' \<and> minlen r \<le> length w"
proof (induction r arbitrary: k p s)
  case Empty
  then have "k p s = Some res \<and> s = [] @ s \<and> minlen Empty \<le> length ([]::string)" by simp
  then show ?case by blast
next
  case (Atom a)
  then obtain c cs where s: "s = c # cs" and k: "k (Some c) cs = Some res"
    by (auto split: list.splits if_splits)
  then have "k (Some c) cs = Some res \<and> s = [c] @ cs \<and> minlen (Atom a) \<le> length [c]" by simp
  then show ?case by blast
next
  case (Seq a b)
  from Seq.prems have "m ic a (\<lambda>p' s'. m ic b k p' s') p s = Some res" by simp
  from Seq.IH(1)[OF this] obtain p1 s1 w1
    where 1: "m ic b k p1 s1 = Some res" "s = w1 @ s1" "minlen a \<le> length w1" by blast
  from Seq.IH(2)[OF 1(1)] obtain p2 s2 w2
    where 2: "k p2 s2 = Some res" "s1 = w2 @ s2" "minlen b \<le> length w2" by blast
  from 1 2 have "k p2 s2 = Some res \<and> s = (w1 @ w2) @ s2 \<and> minlen (Seq a b) \<le> length (w1 @ w2)"
    by simp
  then show ?case by blast
next
  case (Alt a b)
  from Alt.prems have "m ic a k p s = Some res \<or> m ic b k p s = Some res"
    by (auto split: option.splits)
  then show ?case
  proof
    assume "m ic a k p s = Some res"
    from Alt.IH(1)[OF this] obtain p' s' w
      where "k p' s' = Some res" "s = w @ s'" "minlen a \<le> length w" by blast
    then have "k p' s' = Some res \<and> s = w @ s' \<and> minlen (Alt a b) \<le> length w" by simp
    then show ?thesis by blast
  next
    assume "m ic b k p s = Some res"
    from Alt.IH(2)[OF this] obtain p' s' w
      where "k p' s' = Some res" "s = w @ s'" "minlen b \<le> length w" by blast
    then have "k p' s' = Some res \<and> s = w @ s' \<and> minlen (Alt a b) \<le> length w" by simp
    then show ?thesis by blast
  qed
next
  case (Opt a)
  from Opt.prems have "m ic a k p s = Some res \<or> k p s = Some res"
    by (auto split: option.splits)
  then show ?case
  proof
    assume "m ic a k p s = Some res"
    from Opt.IH[OF this] obtain p' s' w
      where "k p' s' = Some res" "s = w @ s'" by blast
    then have "k p' s' = Some res \<and> s = w @ s' \<and> minlen (Opt a) \<le> length w" by simp
    then show ?thesis by blast
  next
    assume "k p s = Some res"
    then have "k p s = Some res \<and> s = [] @ s \<and> minlen (Opt a) \<le> length ([]::string)" by simp
    then show ?thesis by blast
  qed
next
  case (Rep a n g)
  show ?case
  proof (cases g)
    case Greedy
    with Rep.prems have "rep_greedy (atom_match ic a) n k p s = Some res" by simp
    from rep_greedy_consumes[OF this] show ?thesis by simp
  next
    case Lazy
    with Rep.prems have "rep_lazy (atom_match ic a) n k p s = Some res" by simp
    from rep_lazy_consumes[OF this] show ?thesis by simp
  qed
next
  case (Ahead a)
  then have "k p s = Some res \<and> s = [] @ s \<and> minlen (Ahead a) \<le> length ([]::string)"
    by (auto split: option.splits)
  then show ?case by blast
next
  case (Behind a)
  then have "k p s = Some res \<and> s = [] @ s \<and> minlen (Behind a) \<le> length ([]::string)"
    by (auto split: option.splits if_splits)
  then show ?case by blast
next
  case Bol
  then have "k p s = Some res \<and> s = [] @ s \<and> minlen Bol \<le> length ([]::string)"
    by (auto split: if_splits)
  then show ?case by blast
next
  case Eol
  then have "k p s = Some res \<and> s = [] @ s \<and> minlen Eol \<le> length ([]::string)"
    by (auto split: if_splits)
  then show ?case by blast
qed

lemma match_here_consumes:
  "match_here ic r p s = Some (p', s') \<Longrightarrow> \<exists>w. s = w @ s' \<and> minlen r \<le> length w"
  unfolding match_here_def by (drule m_consumes) auto

lemma search_consumes:
  "search ic r p s = Some (i, p', s') \<Longrightarrow>
     \<exists>w. drop i s = w @ s' \<and> i \<le> length s \<and> minlen r \<le> length w"
proof (induction s arbitrary: i p)
  case Nil
  then show ?case by (auto split: option.splits dest: match_here_consumes)
next
  case (Cons c cs)
  show ?case
  proof (cases "match_here ic r p (c # cs)")
    case None
    with Cons.prems obtain j where "i = Suc j" "search ic r (Some c) cs = Some (j, p', s')"
      by (auto split: option.splits)
    with Cons.IH[of "Some c" j] show ?thesis by auto
  next
    case (Some a)
    with Cons.prems have "i = 0" "match_here ic r p (c # cs) = Some (p', s')"
      by (auto split: option.splits prod.splits)
    then show ?thesis by (auto dest: match_here_consumes)
  qed
qed

lemma exec_advances:
  assumes "exec re text li = Some (m0, li')"
  shows "li + minlen (body re) \<le> li' \<and> li' \<le> length text"
proof -
  from assms have le: "li \<le> length text" by (auto simp: exec_def split: if_splits)
  from assms obtain i p' rest
    where s: "search (ignoreCase re) (body re) (prevChar text li) (drop li text) = Some (i, p', rest)"
      and e: "li' = length text - length rest"
    by (auto simp: exec_def Let_def split: if_splits option.splits)
  from search_consumes[OF s] obtain w
    where w: "drop i (drop li text) = w @ rest" "i \<le> length (drop li text)"
      "minlen (body re) \<le> length w" by blast
  from w(1) have "length (drop i (drop li text)) = length w + length rest" by simp
  with w(2) le have "length text = li + i + length w + length rest" by simp
  with e w(3) show ?thesis by simp
qed

section \<open>The two passes\<close>

lemma loop_inv_start: "loop_inv n [] {}"
  by (simp add: loop_inv_def)

lemma loop_inv_push:
  "loop_inv n gaps seen \<Longrightarrow> normalized g \<notin> seen \<Longrightarrow> \<not> n \<le> int (length (gaps @ [g])) \<Longrightarrow>
     loop_inv n (gaps @ [g]) (insert (normalized g) seen)"
  by (auto simp: loop_inv_def)

lemma loop_inv_return:
  "loop_inv n gaps seen \<Longrightarrow> normalized g \<notin> seen \<Longrightarrow> result_ok n (gaps @ [g])"
  by (auto simp: loop_inv_def result_ok_def)

lemma loop_inv_result: "loop_inv n gaps seen \<Longrightarrow> result_ok n gaps"
  by (auto simp: loop_inv_def result_ok_def)

lemma pattern_loop_ok:
  assumes "loop_inv n gaps seen" and "0 < minlen (body pat)"
  shows "out_ok n (fst (pattern_loop tx n pat li gaps seen))"
  using assms
proof (induction tx n pat li gaps seen rule: pattern_loop.induct)
  case (1 tx maxCount pattern lastIndex gaps seen)
  show ?case
  proof (cases "exec pattern tx lastIndex")
    case None
    with "1.prems" show ?thesis
      by (subst pattern_loop.simps) (simp add: out_ok_def)
  next
    case (Some a)
    obtain match0 lastIndex' where a: "a = (match0, lastIndex')" by (cases a)
    from exec_advances[of pattern tx lastIndex match0 lastIndex'] Some a "1.prems"(2)
    have adv: "\<not> lastIndex' \<le> lastIndex" by simp
    note IH = "1.IH"[OF Some a[symmetric] adv refl]
    show ?thesis
      using IH "1.prems" Some a adv
      by (subst pattern_loop.simps)
         (auto simp: out_ok_def Let_def loop_inv_push loop_inv_return)
  qed
qed


lemma pass1_ok:
  assumes "loop_inv n gaps seen" and "\<forall>pat \<in> set pats. 0 < minlen (body pat)"
  shows "out_ok n (fst (pass1 tx n pats i st gaps seen))"
  using assms
proof (induction pats arbitrary: i st gaps seen)
  case Nil
  then show ?case by (simp add: out_ok_def)
next
  case (Cons pat pats)
  from Cons.prems have ok: "out_ok n (fst (pattern_loop tx n pat 0 gaps seen))"
    by (simp add: pattern_loop_ok)
  obtain out li where pl: "pattern_loop tx n pat 0 gaps seen = (out, li)"
    by (cases "pattern_loop tx n pat 0 gaps seen")
  show ?case
  proof (cases out)
    case (Continue gaps' seen')
    with ok pl have "loop_inv n gaps' seen'" by (simp add: out_ok_def)
    with Cons.IH[of gaps' seen'] Cons.prems(2) pl Continue show ?thesis by simp
  next
    case (Return gaps')
    with ok pl show ?thesis by simp
  next
    case Hang
    with ok pl show ?thesis by (simp add: out_ok_def)
  qed
qed

lemma pass2_ok:
  "loop_inv n gaps seen \<Longrightarrow> result_ok n (pass2 n sentences gaps seen)"
  by (induction sentences arbitrary: gaps seen)
     (auto simp: Let_def loop_inv_result loop_inv_return loop_inv_push)

lemma GAP_PATTERNS_consume: "list_all (\<lambda>pat. 0 < minlen (body pat)) GAP_PATTERNS"
  by code_simp

lemma extractGapsFromText_ok:
  "\<exists>gaps st'. extractGapsFromText tx n st = Inr (gaps, st') \<and> result_ok n gaps"
proof -
  from GAP_PATTERNS_consume have "\<forall>pat \<in> set GAP_PATTERNS. 0 < minlen (body pat)"
    by (simp add: list_all_iff)
  with pass1_ok[OF loop_inv_start]
  have ok: "out_ok n (fst (pass1 tx n GAP_PATTERNS 0 st [] {}))" by blast
  obtain out st' where p1: "pass1 tx n GAP_PATTERNS 0 st [] {} = (out, st')"
    by (cases "pass1 tx n GAP_PATTERNS 0 st [] {}")
  show ?thesis
  proof (cases out)
    case (Continue gaps seen)
    with ok p1 have "loop_inv n gaps seen" by (simp add: out_ok_def)
    then have "result_ok n (pass2 n (split SENTENCE_BREAK tx) gaps seen)" by (rule pass2_ok)
    with p1 Continue show ?thesis by (simp add: extractGapsFromText_def)
  next
    case (Return gaps)
    with ok p1 show ?thesis by (simp add: extractGapsFromText_def out_ok_def)
  next
    case Hang
    with ok p1 show ?thesis by (simp add: out_ok_def)
  qed
qed

lemma collect_throws: "collect xs = Inl e \<Longrightarrow> Inl e \<in> set xs"
  by (induction xs) (auto split: sum.splits)

lemma toString_throws: "toString v = Inl e \<Longrightarrow> e = TypeError"
proof (induction v rule: toString.induct)
  case (6 xs)
  from "6.prems" have
    "collect (map (\<lambda>x. if x = JUndefined \<or> x = JNull then Inr [] else toString x) xs) = Inl e"
    by (simp split: sum.splits)
  from collect_throws[OF this] obtain x where "x \<in> set xs" "x \<noteq> JUndefined \<and> x \<noteq> JNull"
    "toString x = Inl e"
    by (auto split: if_splits)
  with "6.IH" show ?case by blast
qed (auto split: if_splits)

lemma arrayJoin_throws: "arrayJoin sep xs = Inl e \<Longrightarrow> e = TypeError"
proof -
  assume "arrayJoin sep xs = Inl e"
  then have "collect (map (\<lambda>x. if nullish x then Inr [] else toString x) xs) = Inl e"
    by (simp add: arrayJoin_def split: sum.splits)
  from collect_throws[OF this] obtain x where "toString x = Inl e"
    by (auto split: if_splits)
  then show ?thesis by (rule toString_throws)
qed

lemma normalizeText_throws: "normalizeText msg = Inl e \<Longrightarrow> e = TypeError"
  by (auto simp: normalizeText_def split: if_splits jsval.splits
        dest: toString_throws arrayJoin_throws)

lemma conversationParts_throws:
  "conversationParts msgs = Inl err \<longleftrightarrow> err = TypeError \<and> (\<exists>msg \<in> set msgs. unreadable msg)"
proof (induction msgs)
  case Nil
  show ?case by simp
next
  case (Cons msg msgs)
  show ?case
  proof (cases "unreadable msg")
    case True
    then have "conversationParts (msg # msgs) = Inl TypeError"
      by (auto simp: unreadable_def)
    with True show ?thesis by auto
  next
    case False
    then have "conversationParts (msg # msgs) = Inl err \<longleftrightarrow> conversationParts msgs = Inl err"
      by (auto simp: unreadable_def Let_def split: sum.splits dest: normalizeText_throws)
    with False Cons.IH show ?thesis by simp
  qed
qed

lemma corpus_throws:
  "corpus msgs = Inl err \<longleftrightarrow>
     err = TypeError \<and> (\<exists>msg \<in> set (slice_last 6 msgs). unreadable msg)"
proof (cases "conversationParts (slice_last 6 msgs)")
  case (Inl e)
  with conversationParts_throws[of "slice_last 6 msgs" e] show ?thesis
    by (auto simp: corpus_def)
next
  case (Inr parts)
  with conversationParts_throws[of "slice_last 6 msgs" TypeError] show ?thesis
    by (auto simp: corpus_def)
qed

lemma questions_wrap:
  "map (question \<circ> wrap clk a tx) (enumerate k qs) = qs"
  by (induction qs arbitrary: k) (simp_all add: wrap_def)

lemma identifyGaps_returns:
  assumes "corpus (messages a) = Inr tx"
  shows "\<exists>gaps st'. identifyGaps clk st a = Inr (gaps, st') \<and>
           result_ok (maxGapsOf (extractionConfig a)) (map question gaps)"
proof -
  from extractGapsFromText_ok[of tx "maxGapsOf (extractionConfig a)" st]
  obtain qs st' where
    x: "extractGapsFromText tx (maxGapsOf (extractionConfig a)) st = Inr (qs, st')"
    and ok: "result_ok (maxGapsOf (extractionConfig a)) qs" by blast
  have e: "result_ok (maxGapsOf (extractionConfig a)) []" by (simp add: result_ok_def)
  from assms x ok e show ?thesis
    by (auto simp: identifyGaps_def questions_wrap)
qed

lemma pass1_state_free:
  "fst (pass1 tx n pats i st gaps seen) = fst (pass1 tx n pats i' st' gaps seen)"
proof (induction pats arbitrary: i st i' st' gaps seen)
  case Nil
  show ?case by simp
next
  case (Cons pat pats)
  show ?case
    using Cons.IH by (auto split: prod.splits loop_out.splits)
qed

lemma extractGapsFromText_state_free:
  "map_sum id fst (extractGapsFromText tx n st) = map_sum id fst (extractGapsFromText tx n st')"
  using pass1_state_free[of tx n GAP_PATTERNS 0 st "[]" "{}" 0 st']
  by (auto simp: extractGapsFromText_def split: prod.splits loop_out.splits)

lemma questionsOf_free:
  "questionsOf (identifyGaps clk st a) = questionsOf (identifyGaps clk' st' a)"
proof (cases "corpus (messages a)")
  case (Inl e)
  then show ?thesis by (simp add: identifyGaps_def questionsOf_def)
next
  case (Inr tx)
  from extractGapsFromText_state_free[of tx "maxGapsOf (extractionConfig a)" st st'] Inr
  show ?thesis
    by (cases "extractGapsFromText tx (maxGapsOf (extractionConfig a)) st";
        cases "extractGapsFromText tx (maxGapsOf (extractionConfig a)) st'")
       (auto simp: identifyGaps_def questionsOf_def questions_wrap)
qed

section \<open>A larger cap\<close>

text \<open>A call that returns fewer gaps than the cap returns the same gaps under any larger cap.\<close>

lemma pattern_loop_cases:
  "pattern_loop tx n pat li gaps seen =
     (case exec pat tx li of
        None \<Rightarrow> (Continue gaps seen, 0)
      | Some (match0, li') \<Rightarrow>
          if li' \<le> li then (Hang, li')
          else if rejects (trim match0) seen then pattern_loop tx n pat li' gaps seen
          else if n \<le> int (length (gaps @ [trim match0]))
          then (Return (gaps @ [trim match0]), li')
          else pattern_loop tx n pat li' (gaps @ [trim match0])
                 (insert (normalized (trim match0)) seen))"
  by (subst pattern_loop.simps) (simp add: rejects_def Let_def split: option.splits)

lemma pattern_loop_induct [case_names stop hang skip full push]:
  assumes stop: "\<And>li gaps seen. exec pat tx li = None \<Longrightarrow> P li gaps seen"
    and hang: "\<And>li gaps seen match0 li'.
       exec pat tx li = Some (match0, li') \<Longrightarrow> li' \<le> li \<Longrightarrow> P li gaps seen"
    and skip: "\<And>li gaps seen match0 li'.
       exec pat tx li = Some (match0, li') \<Longrightarrow> li < li' \<Longrightarrow> rejects (trim match0) seen \<Longrightarrow>
       P li' gaps seen \<Longrightarrow> P li gaps seen"
    and full: "\<And>li gaps seen match0 li'.
       exec pat tx li = Some (match0, li') \<Longrightarrow> li < li' \<Longrightarrow> \<not> rejects (trim match0) seen \<Longrightarrow>
       n \<le> int (length (gaps @ [trim match0])) \<Longrightarrow> P li gaps seen"
    and push: "\<And>li gaps seen match0 li'.
       exec pat tx li = Some (match0, li') \<Longrightarrow> li < li' \<Longrightarrow> \<not> rejects (trim match0) seen \<Longrightarrow>
       \<not> n \<le> int (length (gaps @ [trim match0])) \<Longrightarrow>
       P li' (gaps @ [trim match0]) (insert (normalized (trim match0)) seen) \<Longrightarrow>
       P li gaps seen"
  shows "P li gaps seen"
proof (induction "length tx - li" arbitrary: li gaps seen rule: less_induct)
  case (less li gaps seen)
  show ?case
  proof (cases "exec pat tx li")
    case None
    then show ?thesis by (rule stop)
  next
    case (Some a)
    obtain match0 li' where a: "a = (match0, li')" by (cases a)
    with Some have ex: "exec pat tx li = Some (match0, li')" by simp
    show ?thesis
    proof (cases "li' \<le> li")
      case True
      with ex show ?thesis by (rule hang)
    next
      case False
      then have lt: "li < li'" by simp
      from exec_advances[OF ex] have "li' \<le> length tx" by simp
      with lt have smaller: "length tx - li' < length tx - li" by simp
      show ?thesis
      proof (cases "rejects (trim match0) seen")
        case True
        from ex lt True less.hyps[OF smaller] show ?thesis by (rule skip)
      next
        case False
        show ?thesis
        proof (cases "n \<le> int (length (gaps @ [trim match0]))")
          case True
          from ex lt False True show ?thesis by (rule full)
        next
          case nf: False
          from ex lt False nf less.hyps[OF smaller] show ?thesis by (rule push)
        qed
      qed
    qed
  qed
qed

lemma pattern_loop_return_full:
  "pattern_loop tx n pat li gaps seen = (Return gs, l) \<Longrightarrow> n \<le> int (length gs)"
  by (induction li gaps seen rule: pattern_loop_induct[of pat tx _ n])
     (simp_all add: pattern_loop_cases[of tx n pat] del: length_append)

lemma pattern_loop_mono:
  "pattern_loop tx n pat li gaps seen = (Continue gs sn, l) \<Longrightarrow> n \<le> n' \<Longrightarrow>
     pattern_loop tx n' pat li gaps seen = (Continue gs sn, l)"
  by (induction li gaps seen rule: pattern_loop_induct[of pat tx _ n])
     (simp_all add: pattern_loop_cases[of tx _ pat])

lemma pass1_return_full:
  "pass1 tx n pats i st gaps seen = (Return gs, st') \<Longrightarrow> n \<le> int (length gs)"
proof (induction pats arbitrary: i st gaps seen)
  case Nil
  then show ?case by simp
next
  case (Cons pat pats)
  then show ?case
    by (auto split: prod.splits loop_out.splits dest: pattern_loop_return_full)
qed

lemma pass1_mono:
  "pass1 tx n pats i st gaps seen = (Continue gs sn, st') \<Longrightarrow> n \<le> n' \<Longrightarrow>
     pass1 tx n' pats i st gaps seen = (Continue gs sn, st')"
proof (induction pats arbitrary: i st gaps seen)
  case Nil
  then show ?case by simp
next
  case (Cons pat pats)
  then show ?case
    by (auto split: prod.splits loop_out.splits dest: pattern_loop_mono)
qed

lemma pass2_mono:
  "int (length (pass2 n sentences gaps seen)) < n \<Longrightarrow> n \<le> n' \<Longrightarrow>
     pass2 n' sentences gaps seen = pass2 n sentences gaps seen"
  by (induction sentences arbitrary: gaps seen) (auto simp: Let_def split: if_splits)

lemma extractGapsFromText_mono:
  assumes "extractGapsFromText tx n st = Inr (gs, st')" and "int (length gs) < n" and "n \<le> n'"
  shows "extractGapsFromText tx n' st = Inr (gs, st')"
proof -
  obtain out s1 where p1: "pass1 tx n GAP_PATTERNS 0 st [] {} = (out, s1)"
    by (cases "pass1 tx n GAP_PATTERNS 0 st [] {}")
  show ?thesis
  proof (cases out)
    case (Continue gaps seen)
    with p1 assms(1) have gs: "gs = pass2 n (split SENTENCE_BREAK tx) gaps seen" and s: "s1 = st'"
      by (auto simp: extractGapsFromText_def)
    from p1 Continue have "pass1 tx n GAP_PATTERNS 0 st [] {} = (Continue gaps seen, s1)"
      by simp
    from pass1_mono[OF this assms(3)]
    have "pass1 tx n' GAP_PATTERNS 0 st [] {} = (Continue gaps seen, s1)" .
    moreover from gs assms(2,3)
    have "pass2 n' (split SENTENCE_BREAK tx) gaps seen = gs"
      using pass2_mono[of n "split SENTENCE_BREAK tx" gaps seen n'] by simp
    ultimately show ?thesis using s by (simp add: extractGapsFromText_def)
  next
    case (Return gaps)
    with p1 assms(1) have "gs = gaps" by (auto simp: extractGapsFromText_def)
    with p1 Return pass1_return_full[of tx n GAP_PATTERNS 0 st "[]" "{}" gaps s1] assms(2)
    show ?thesis by simp
  next
    case Hang
    with p1 assms(1) show ?thesis by (simp add: extractGapsFromText_def)
  qed
qed

text \<open>A cap below 1 is the cap 1: the first gap that is pushed is returned.\<close>

lemma pattern_loop_cap_one:
  "gaps = [] \<Longrightarrow> n \<le> 1 \<Longrightarrow>
     pattern_loop tx n pat li gaps seen = pattern_loop tx 1 pat li gaps seen"
proof (induction li gaps seen rule: pattern_loop_induct[of pat tx _ 1])
  case (stop li gaps seen)
  then show ?case by (simp add: pattern_loop_cases[of tx _ pat li])
next
  case (hang li gaps seen match0 li')
  then show ?case by (simp add: pattern_loop_cases[of tx _ pat li])
next
  case (skip li gaps seen match0 li')
  then show ?case by (simp add: pattern_loop_cases[of tx _ pat li])
next
  case (full li gaps seen match0 li')
  then show ?case by (simp add: pattern_loop_cases[of tx _ pat li])
next
  case (push li gaps seen match0 li')
  then show ?case by simp
qed

lemma pattern_loop_continue_empty:
  "gaps = [] \<Longrightarrow> n \<le> 1 \<Longrightarrow> pattern_loop tx n pat li gaps seen = (Continue gs sn, l) \<Longrightarrow>
     gs = []"
proof (induction li gaps seen rule: pattern_loop_induct[of pat tx _ 1])
  case (stop li gaps seen)
  then show ?case by (simp add: pattern_loop_cases[of tx _ pat li])
next
  case (hang li gaps seen match0 li')
  then show ?case by (simp add: pattern_loop_cases[of tx _ pat li])
next
  case (skip li gaps seen match0 li')
  then show ?case by (simp add: pattern_loop_cases[of tx _ pat li])
next
  case (full li gaps seen match0 li')
  then show ?case by (simp add: pattern_loop_cases[of tx _ pat li])
next
  case (push li gaps seen match0 li')
  then show ?case by simp
qed

lemma pass1_continue_empty:
  "n \<le> 1 \<Longrightarrow> pass1 tx n pats i st [] seen = (Continue gs sn, st') \<Longrightarrow> gs = []"
proof (induction pats arbitrary: i st seen)
  case Nil
  then show ?case by simp
next
  case (Cons pat pats)
  obtain out l where pl: "pattern_loop tx n pat 0 [] seen = (out, l)"
    by (cases "pattern_loop tx n pat 0 [] seen")
  show ?case
  proof (cases out)
    case (Continue gaps' seen')
    with pl Cons.prems(1) have "gaps' = []"
      using pattern_loop_continue_empty[of "[]" n tx pat 0 seen gaps' seen' l] by simp
    with Cons.IH[OF Cons.prems(1)] Cons.prems(2) pl Continue show ?thesis by simp
  next
    case (Return gaps')
    with pl Cons.prems(2) show ?thesis by simp
  next
    case Hang
    with pl Cons.prems(2) show ?thesis by simp
  qed
qed

lemma pass1_cap_one:
  "n \<le> 1 \<Longrightarrow> pass1 tx n pats i st [] seen = pass1 tx 1 pats i st [] seen"
proof (induction pats arbitrary: i st seen)
  case Nil
  show ?case by simp
next
  case (Cons pat pats)
  have same: "pattern_loop tx n pat 0 [] seen = pattern_loop tx 1 pat 0 [] seen"
    by (rule pattern_loop_cap_one[OF refl Cons.prems])
  obtain out l where pl: "pattern_loop tx 1 pat 0 [] seen = (out, l)"
    by (cases "pattern_loop tx 1 pat 0 [] seen")
  show ?case
  proof (cases out)
    case (Continue gaps' seen')
    with pl have "gaps' = []"
      using pattern_loop_continue_empty[of "[]" 1 tx pat 0 seen gaps' seen' l] by simp
    with Cons.IH[OF Cons.prems] same pl Continue show ?thesis by simp
  next
    case (Return gaps')
    with same pl show ?thesis by simp
  next
    case Hang
    with same pl show ?thesis by simp
  qed
qed

lemma pass2_cap_one:
  "n \<le> 1 \<Longrightarrow> pass2 n sentences [] seen = pass2 1 sentences [] seen"
  by (induction sentences arbitrary: seen) (simp_all add: Let_def)

lemma extractGapsFromText_cap_one:
  assumes "n \<le> 1"
  shows "extractGapsFromText tx n st = extractGapsFromText tx 1 st"
proof -
  obtain out s1 where p1: "pass1 tx 1 GAP_PATTERNS 0 st [] {} = (out, s1)"
    by (cases "pass1 tx 1 GAP_PATTERNS 0 st [] {}")
  with pass1_cap_one[OF assms, of tx GAP_PATTERNS 0 st "{}"]
  have pn: "pass1 tx n GAP_PATTERNS 0 st [] {} = (out, s1)" by simp
  show ?thesis
  proof (cases out)
    case (Continue gaps seen)
    with p1 pass1_continue_empty[of 1 tx GAP_PATTERNS 0 st "{}" gaps seen s1]
    have "gaps = []" by simp
    with p1 pn Continue pass2_cap_one[OF assms, of "split SENTENCE_BREAK tx" seen]
    show ?thesis by (simp add: extractGapsFromText_def)
  next
    case (Return gaps)
    with p1 pn show ?thesis by (simp add: extractGapsFromText_def)
  next
    case Hang
    with p1 pn show ?thesis by (simp add: extractGapsFromText_def)
  qed
qed

lemma extractGapsFromText_any_state:
  assumes "map_sum id fst (extractGapsFromText tx n st0) = Inr gs"
  shows "\<exists>st'. extractGapsFromText tx n st = Inr (gs, st')"
proof -
  from assms extractGapsFromText_state_free[of tx n st st0]
  have "map_sum id fst (extractGapsFromText tx n st) = Inr gs" by simp
  then show ?thesis by (cases "extractGapsFromText tx n st") auto
qed

lemma identifyGaps_open:
  assumes "corpus (messages a) = Inr tx" and "tx \<noteq> []"
    and "\<not> (entropyOf a < thresholdOf (extractionConfig a) \<and>
            \<not> keywordHit (keywordsOf (extractionConfig a)) tx)"
    and "map_sum id fst (extractGapsFromText tx (maxGapsOf (extractionConfig a)) st0) = Inr qs"
  shows "\<exists>st'. identifyGaps clk st a = Inr (map (wrap clk a tx) (enumerate 0 qs), st')"
proof -
  from extractGapsFromText_any_state[OF assms(4), of st] obtain st'
    where "extractGapsFromText tx (maxGapsOf (extractionConfig a)) st = Inr (qs, st')" by blast
  with assms(1-3) show ?thesis by (auto simp: identifyGaps_def)
qed

section \<open>The scenarios, evaluated\<close>

lemma corpus_tidal: "corpus [userMessage tidalQuestion] = Inr tidalQuestion"
  by code_simp

lemma extract_tidal:
  "map_sum id fst (extractGapsFromText tidalQuestion 2 []) = Inr [tidalQuestion]"
  by code_simp

lemma extract_tidal_negative:
  "map_sum id fst (extractGapsFromText tidalQuestion (- 1) []) = Inr [tidalQuestion]"
  by code_simp

lemma corpus_cascades:
  "corpus [userMessage cascadesHere, userMessage cascades] =
     Inr (cascadesHere @ [CHR 0x0A, CHR 0x0A] @ cascades)"
  by code_simp

lemma extract_cascades_2:
  "map_sum id fst (extractGapsFromText (cascadesHere @ [CHR 0x0A, CHR 0x0A] @ cascades) 2 []) =
     Inr [cascadesHere, cascades]"
  by code_simp

lemma extract_cascades_negative:
  "map_sum id fst (extractGapsFromText (cascadesHere @ [CHR 0x0A, CHR 0x0A] @ cascades) (- 1) []) =
     Inr [cascadesHere]"
  by code_simp

lemma extract_cascades_3:
  "map_sum id fst (extractGapsFromText (cascadesHere @ [CHR 0x0A, CHR 0x0A] @ cascades) 3 []) =
     Inr [cascadesHere, cascades]"
  by code_simp

lemma corpus_injected: "corpus [userMessage (injectedBlock @ tidalQuestion)] = Inr []"
  by code_simp

lemma exchange_open:
  "\<not> (entropyOf (exchange ss cap) < thresholdOf (extractionConfig (exchange ss cap)) \<and>
       \<not> keywordHit (keywordsOf (extractionConfig (exchange ss cap))) tx)"
  by (simp add: exchange_def entropyOf_def thresholdOf_def)

lemma tidal_eval:
  assumes "maxGapsOf (extractionConfig (exchange [tidalQuestion] cap)) \<in> {2, - 1}"
  shows "\<exists>st'. identifyGaps clk st (exchange [tidalQuestion] cap) =
           Inr ([wrap clk (exchange [tidalQuestion] cap) tidalQuestion (0, tidalQuestion)], st')"
proof -
  let ?a = "exchange [tidalQuestion] cap"
  have c: "corpus (messages ?a) = Inr tidalQuestion"
    by (simp add: exchange_def corpus_tidal)
  have ne: "tidalQuestion \<noteq> []" by (simp add: tidalQuestion_def)
  from assms extract_tidal extract_tidal_negative
  have x: "map_sum id fst (extractGapsFromText tidalQuestion (maxGapsOf (extractionConfig ?a)) [])
             = Inr [tidalQuestion]"
    by auto
  from identifyGaps_open[OF c ne exchange_open x, of clk st] show ?thesis by simp
qed

section \<open>The admission gate\<close>



section \<open>The cap\<close>

text \<open>
  Claim C2. With a cap maxGapsPerExchange of at least 1, identifyGaps either returns at
  most that many gaps, or it throws the TypeError of an entry among the last six messages
  that is null or undefined, or is a user message whose content has no string form; it
  always ends.
\<close>

theorem identifyGaps_cap:
  assumes "maxGapsPerExchange (extractionConfig a) = Some n" and "1 \<le> n"
  shows "(\<exists>gaps st'. identifyGaps clk st a = Inr (gaps, st') \<and> int (length gaps) \<le> n) \<or>
         (identifyGaps clk st a = Inl TypeError \<and>
          (\<exists>msg \<in> set (slice_last 6 (messages a)).
             nullish msg \<or>
             (getProp msg ''role'' = JStr ''user'' \<and> normalizeText msg = Inl TypeError)))"
proof (cases "corpus (messages a)")
  case (Inl err)
  with corpus_throws[of "messages a" err] show ?thesis
    by (simp add: identifyGaps_def unreadable_def)
next
  case (Inr tx)
  from identifyGaps_returns[OF Inr, of clk st] obtain gaps st'
    where r: "identifyGaps clk st a = Inr (gaps, st')"
      and ok: "result_ok (maxGapsOf (extractionConfig a)) (map question gaps)" by blast
  from assms have "maxGapsOf (extractionConfig a) = n" by (simp add: maxGapsOf_def)
  with ok assms(2) have "int (length gaps) \<le> n" by (simp add: result_ok_def)
  with r show ?thesis by simp
qed

theorem identifyGaps_cap_witness:
  "\<exists>gaps st'. identifyGaps (clockAt 0) [] (exchange [tidalQuestion, cascades] (Some 1))
                 = Inr (gaps, st') \<and> int (length gaps) \<le> 1"
  using identifyGaps_cap[of "exchange [tidalQuestion, cascades] (Some 1)" 1 "clockAt 0" "[]"]
  by (simp add: exchange_def slice_last_def userMessage_def nullish_def normalizeText_def)

section \<open>No two gaps with one normalized form\<close>

text \<open>
  Claim C3. The gaps one call of extractGapsFromText returns have pairwise different
  normalized forms (lower case, every run of white space replaced by one space), and so
  have the questions of the gaps identifyGaps returns.
\<close>

theorem gaps_distinct:
  "(\<exists>gaps st'. extractGapsFromText tx n st = Inr (gaps, st') \<and> distinct (map normalized gaps)) \<and>
   (\<forall>gaps st'. identifyGaps clk s a = Inr (gaps, st') \<longrightarrow>
      distinct (map normalized (map question gaps)))"
proof
  from extractGapsFromText_ok[of tx n st]
  show "\<exists>gaps st'. extractGapsFromText tx n st = Inr (gaps, st') \<and> distinct (map normalized gaps)"
    by (auto simp: result_ok_def)
next
  show "\<forall>gaps st'. identifyGaps clk s a = Inr (gaps, st') \<longrightarrow>
          distinct (map normalized (map question gaps))"
  proof (intro allI impI)
    fix gaps st'
    assume r: "identifyGaps clk s a = Inr (gaps, st')"
    then obtain tx where "corpus (messages a) = Inr tx"
      by (cases "corpus (messages a)") (auto simp: identifyGaps_def)
    from identifyGaps_returns[OF this, of clk s] r
    show "distinct (map normalized (map question gaps))"
      by (auto simp: result_ok_def)
  qed
qed


lemma cascades_eval:
  assumes "2 \<le> maxGapsOf (extractionConfig a)"
    and "messages a = [userMessage cascadesHere, userMessage cascades]"
    and "\<not> (entropyOf a < thresholdOf (extractionConfig a) \<and>
            \<not> keywordHit (keywordsOf (extractionConfig a))
                 (cascadesHere @ [CHR 0x0A, CHR 0x0A] @ cascades))"
  shows "\<exists>st'. identifyGaps clk st a =
           Inr (map (wrap clk a (cascadesHere @ [CHR 0x0A, CHR 0x0A] @ cascades))
                  (enumerate 0 [cascadesHere, cascades]), st')"
proof -
  let ?tx = "cascadesHere @ [CHR 0x0A, CHR 0x0A] @ cascades"
  let ?n = "maxGapsOf (extractionConfig a)"
  have c: "corpus (messages a) = Inr ?tx" by (simp add: assms(2) corpus_cascades)
  have ne: "?tx \<noteq> []" by simp
  have x: "map_sum id fst (extractGapsFromText ?tx ?n []) = Inr [cascadesHere, cascades]"
  proof (cases "?n = 2")
    case True
    with extract_cascades_2 show ?thesis by simp
  next
    case False
    with assms(1) have n3: "3 \<le> ?n" by simp
    from extractGapsFromText_any_state[OF extract_cascades_3, of "[]"] obtain st3
      where "extractGapsFromText ?tx 3 [] = Inr ([cascadesHere, cascades], st3)" by blast
    from extractGapsFromText_mono[OF this _ n3] show ?thesis by simp
  qed
  from identifyGaps_open[OF c ne assms(3) x, of clk st] show ?thesis .
qed

theorem gaps_distinct_witness:
  "\<exists>gaps st'. identifyGaps (clockAt 0) [] (exchange [cascadesHere, cascades] (Some 2))
                 = Inr (gaps, st') \<and>
               map question gaps = [cascadesHere, cascades] \<and>
               distinct (map normalized (map question gaps))"
proof -
  let ?a = "exchange [cascadesHere, cascades] (Some 2)"
  have "2 \<le> maxGapsOf (extractionConfig ?a)" by (simp add: exchange_def maxGapsOf_def)
  moreover have "messages ?a = [userMessage cascadesHere, userMessage cascades]"
    by (simp add: exchange_def)
  moreover have "\<not> (entropyOf ?a < thresholdOf (extractionConfig ?a) \<and>
            \<not> keywordHit (keywordsOf (extractionConfig ?a))
                 (cascadesHere @ [CHR 0x0A, CHR 0x0A] @ cascades))"
    by (rule exchange_open)
  ultimately have "\<exists>st'. identifyGaps (clockAt 0) [] ?a =
          Inr (map (wrap (clockAt 0) ?a (cascadesHere @ [CHR 0x0A, CHR 0x0A] @ cascades))
                 (enumerate 0 [cascadesHere, cascades]), st')"
    by (rule cascades_eval)
  then obtain st' where
    r: "identifyGaps (clockAt 0) [] ?a =
          Inr (map (wrap (clockAt 0) ?a (cascadesHere @ [CHR 0x0A, CHR 0x0A] @ cascades))
                 (enumerate 0 [cascadesHere, cascades]), st')"
    by blast
  from gaps_distinct[of "[]" 2 "[]" "clockAt 0" "[]" ?a] r
  have "distinct (map normalized (map question
          (map (wrap (clockAt 0) ?a (cascadesHere @ [CHR 0x0A, CHR 0x0A] @ cascades))
             (enumerate 0 [cascadesHere, cascades]))))"
    by blast
  with r show ?thesis by (simp add: wrap_def)
qed

section \<open>A cap of 0 or below\<close>

text \<open>
  Claim C4, as the code has it. A cap maxGapsPerExchange of 0 is falsy and reads as the
  default 2, so the call is the call without a cap and returns at most two gaps. With a
  negative cap the first accepted gap is pushed before the cap is compared, so the call
  is the call with the cap 1, in extractGapsFromText and in identifyGaps: it returns the
  first accepted candidate when there is one, and nothing otherwise.
\<close>

theorem nonpositive_cap:
  assumes "maxGapsPerExchange (extractionConfig a) = Some n" and "n \<le> 0"
  shows "(n = 0 \<longrightarrow>
            identifyGaps clk st a =
            identifyGaps clk st
              (a\<lparr>extractionConfig := (extractionConfig a)\<lparr>maxGapsPerExchange := None\<rparr>\<rparr>)) \<and>
         (n < 0 \<longrightarrow>
            extractGapsFromText tx n st0 = extractGapsFromText tx 1 st0 \<and>
            identifyGaps clk st a =
            identifyGaps clk st
              (a\<lparr>extractionConfig := (extractionConfig a)\<lparr>maxGapsPerExchange := Some 1\<rparr>\<rparr>)) \<and>
         (\<forall>gaps st'. identifyGaps clk st a = Inr (gaps, st') \<longrightarrow>
            int (length gaps) \<le> (if n = 0 then 2 else 1))"
proof (intro conjI impI allI)
  let ?a' = "a\<lparr>extractionConfig := (extractionConfig a)\<lparr>maxGapsPerExchange := None\<rparr>\<rparr>"
  assume "n = 0"
  with assms(1) have m: "maxGapsOf (extractionConfig ?a') = maxGapsOf (extractionConfig a)"
    by (simp add: maxGapsOf_def)
  have e: "entropyOf ?a' = entropyOf a" by (simp add: entropyOf_def)
  have t: "thresholdOf (extractionConfig ?a') = thresholdOf (extractionConfig a)"
    by (simp add: thresholdOf_def)
  have k: "keywordsOf (extractionConfig ?a') = keywordsOf (extractionConfig a)"
    by (simp add: keywordsOf_def)
  have w: "wrap clk ?a' = wrap clk a" by (simp add: fun_eq_iff wrap_def entropyOf_def)
  have ms: "messages ?a' = messages a" by simp
  show "identifyGaps clk st a = identifyGaps clk st ?a'"
    by (simp only: identifyGaps_def m e t k w ms)
next
  assume "n < 0"
  then have "n \<le> 1" by simp
  then show "extractGapsFromText tx n st0 = extractGapsFromText tx 1 st0"
    by (rule extractGapsFromText_cap_one)
next
  let ?a' = "a\<lparr>extractionConfig := (extractionConfig a)\<lparr>maxGapsPerExchange := Some 1\<rparr>\<rparr>"
  assume neg: "n < 0"
  with assms(1) have mn: "maxGapsOf (extractionConfig a) = n" by (simp add: maxGapsOf_def)
  have m1: "maxGapsOf (extractionConfig ?a') = 1" by (simp add: maxGapsOf_def)
  from neg have "n \<le> 1" by simp
  then have x: "extractGapsFromText s n st = extractGapsFromText s 1 st" for s
    by (rule extractGapsFromText_cap_one)
  have e: "entropyOf ?a' = entropyOf a" by (simp add: entropyOf_def)
  have t: "thresholdOf (extractionConfig ?a') = thresholdOf (extractionConfig a)"
    by (simp add: thresholdOf_def)
  have k: "keywordsOf (extractionConfig ?a') = keywordsOf (extractionConfig a)"
    by (simp add: keywordsOf_def)
  have w: "wrap clk ?a' = wrap clk a" by (simp add: fun_eq_iff wrap_def entropyOf_def)
  have ms: "messages ?a' = messages a" by simp
  show "identifyGaps clk st a = identifyGaps clk st ?a'"
    by (simp only: identifyGaps_def mn m1 x e t k w ms)
next
  fix gaps st'
  assume r: "identifyGaps clk st a = Inr (gaps, st')"
  then obtain tx where "corpus (messages a) = Inr tx"
    by (cases "corpus (messages a)") (auto simp: identifyGaps_def)
  from identifyGaps_returns[OF this, of clk st] r
  have "result_ok (maxGapsOf (extractionConfig a)) (map question gaps)" by auto
  with assms show "int (length gaps) \<le> (if n = 0 then 2 else 1)"
    by (auto simp: result_ok_def maxGapsOf_def)
qed

theorem nonpositive_cap_witness:
  "identifyGaps (clockAt 0) [] (exchange [cascadesHere, cascades] (Some (- 1))) =
     identifyGaps (clockAt 0) [] (exchange [cascadesHere, cascades] (Some 1)) \<and>
   questionsOf (identifyGaps (clockAt 0) [] (exchange [cascadesHere, cascades] (Some (- 1))))
     = Inr [cascadesHere]"
proof -
  let ?a = "exchange [cascadesHere, cascades] (Some (- 1))"
  let ?b = "exchange [cascadesHere, cascades] (Some 1)"
  let ?tx = "cascadesHere @ [CHR 0x0A, CHR 0x0A] @ cascades"
  have cap: "maxGapsPerExchange (extractionConfig ?a) = Some (- 1)" by (simp add: exchange_def)
  have b: "?a\<lparr>extractionConfig := (extractionConfig ?a)\<lparr>maxGapsPerExchange := Some 1\<rparr>\<rparr> = ?b"
    by (simp add: exchange_def)
  from nonpositive_cap[OF cap, of "clockAt 0" "[]"] b
  have same: "identifyGaps (clockAt 0) [] ?a = identifyGaps (clockAt 0) [] ?b" by simp
  have c: "corpus (messages ?a) = Inr ?tx" by (simp add: exchange_def corpus_cascades)
  have ne: "?tx \<noteq> []" by simp
  have x: "map_sum id fst (extractGapsFromText ?tx (maxGapsOf (extractionConfig ?a)) [])
             = Inr [cascadesHere]"
    using extract_cascades_negative by (simp add: exchange_def maxGapsOf_def)
  from identifyGaps_open[OF c ne exchange_open x, of "clockAt 0" "[]"]
  have "questionsOf (identifyGaps (clockAt 0) [] ?a) = Inr [cascadesHere]"
    by (auto simp: questionsOf_def wrap_def)
  with same show ?thesis by simp
qed

theorem zero_or_negative_cap_counterexample:
  "questionsOf (identifyGaps (clockAt 0) [] (exchange [tidalQuestion] (Some 0)))
     = Inr [tidalQuestion] \<and>
   questionsOf (identifyGaps (clockAt 0) [] (exchange [tidalQuestion] (Some (- 1))))
     = Inr [tidalQuestion]"
proof -
  have "maxGapsOf (extractionConfig (exchange [tidalQuestion] (Some 0))) \<in> {2, - 1}"
    by (simp add: exchange_def maxGapsOf_def)
  from tidal_eval[OF this, of "clockAt 0" "[]"]
  have z: "questionsOf (identifyGaps (clockAt 0) [] (exchange [tidalQuestion] (Some 0)))
             = Inr [tidalQuestion]"
    by (auto simp: questionsOf_def wrap_def)
  have "maxGapsOf (extractionConfig (exchange [tidalQuestion] (Some (- 1)))) \<in> {2, - 1}"
    by (simp add: exchange_def maxGapsOf_def)
  from tidal_eval[OF this, of "clockAt 0" "[]"]
  have "questionsOf (identifyGaps (clockAt 0) [] (exchange [tidalQuestion] (Some (- 1))))
          = Inr [tidalQuestion]"
    by (auto simp: questionsOf_def wrap_def)
  with z show ?thesis by simp
qed


section \<open>Injected context blocks\<close>

text \<open>
  A match of CONTEXT_BLOCK_PATTERN that starts at a header runs to the end of a text
  that holds no further opening bracket, so nothing of such a message reaches the corpus.
\<close>

lemma canonicalize_bracket: "canonicalize c = CHR ''['' \<longleftrightarrow> c = CHR ''[''"
  by (cases c) (auto simp: canonicalize_bits split: if_splits)

lemma lit_Cons: "lit (c # w) = Seq (Atom (Lit c)) (lit w)"
  by (simp add: lit_def seqs_def)

lemma m_lit:
  "m True (lit w) k p (w @ s) = k (if w = [] then p else Some (last w)) s"
proof (induction w arbitrary: p)
  case Nil
  show ?case by (simp add: lit_def seqs_def)
next
  case (Cons c w)
  show ?case by (simp add: lit_Cons Cons.IH)
qed

lemma m_lit_mismatch:
  "canonicalize c \<noteq> canonicalize a \<Longrightarrow> m True (lit (a # w)) k p (c # s) = None"
  by (simp add: lit_Cons)

lemma m_words_pick:
  assumes "h \<in> set ws" and "h \<noteq> []"
    and "\<forall>w \<in> set ws. w \<noteq> [] \<and> (w \<noteq> h \<longrightarrow> canonicalize (hd w) \<noteq> canonicalize (hd h))"
    and "k (Some (last h)) s = Some r"
  shows "m True (words ws) k p (h @ s) = Some r"
  using assms(1,3)
proof (induction ws)
  case Nil
  then show ?case by simp
next
  case (Cons w ws)
  have hit: "m True (lit h) k p (h @ s) = Some r"
    using assms(2,4) by (simp add: m_lit)
  have miss: "m True (lit w) k p (h @ s) = None" if "w \<noteq> h"
  proof -
    from Cons.prems(2) that obtain a w' where w: "w = a # w'"
      and d: "canonicalize (hd h) \<noteq> canonicalize a"
      by (cases w) auto
    from assms(2) obtain c h' where h: "h = c # h'" by (cases h) auto
    with d w show ?thesis using m_lit_mismatch[of c a w' k p "h' @ s"] by simp
  qed
  show ?case
  proof (cases ws)
    case Nil
    with Cons.prems(1) have "w = h" by simp
    with Nil hit show ?thesis by (simp add: words_def)
  next
    case (Cons w2 ws2)
    show ?thesis
    proof (cases "w = h")
      case True
      with Cons hit show ?thesis by (simp add: words_def)
    next
      case False
      with Cons.prems(1) have "h \<in> set ws" by simp
      with Cons.IH Cons.prems(2) have "m True (words ws) k p (h @ s) = Some r" by simp
      with Cons miss[OF False] show ?thesis by (simp add: words_def)
    qed
  qed
qed

lemma lazy_to_end:
  assumes "CHR ''['' \<notin> set s"
    and stop: "\<And>p. k p [] = Some (p, [])"
    and go: "\<And>p c cs. c \<noteq> CHR ''['' \<Longrightarrow> k p (c # cs) = None"
  shows "rep_lazy (atom_match True anything) 0 k p s =
           Some (if s = [] then p else Some (last s), [])"
  using assms(1)
proof (induction s arbitrary: p)
  case Nil
  then show ?case by (simp add: stop)
next
  case (Cons c cs)
  then have "c \<noteq> CHR ''[''" and "CHR ''['' \<notin> set cs" by auto
  with Cons.IH[of "Some c"] show ?case
    by (simp add: go anything_def)
qed

lemma m_Seq_fun: "m ic (Seq a b) k = m ic a (m ic b k)"
  by (intro ext) simp

lemma m_Empty_fun: "m ic Empty k = k"
  by (intro ext) simp

lemma m_Lazy_fun: "m ic (Rep a n Lazy) k = rep_lazy (atom_match ic a) n k"
  by (intro ext) simp

lemma block_match:
  assumes "h \<in> set blockHeaders" and "CHR ''['' \<notin> set rest"
  shows "match_here True (body CONTEXT_BLOCK_PATTERN) p (''['' @ h @ '']'' @ rest) =
           Some (Some (if rest = [] then CHR '']'' else last rest), [])"
proof -
  define LA where "LA = Ahead (Alt (seqs [lit ''['',
                     words [''CONTINUITY'', ''STABILITY'', ''GROWTH'', ''MEMORY'']]) Eol)"
  define k0 :: cont where "k0 = (\<lambda>p' s'. Some (p', s'))"
  define k where "k = m True LA k0"
  have stop: "k q [] = Some (q, [])" for q
    by (simp add: k_def k0_def LA_def seqs_def lit_def)
  have go: "k q (c # cs) = None" if "c \<noteq> CHR ''[''" for q c cs
    using that by (simp add: k_def LA_def seqs_def lit_def canonicalize_bracket canonicalize_bits)
  have lazy: "rep_lazy (atom_match True anything) 0 k (Some CHR '']'') rest =
                Some (Some (if rest = [] then CHR '']'' else last rest), [])"
    using lazy_to_end[OF assms(2), of k "Some CHR '']''"] stop go by simp
  define k1 where "k1 = m True (lit '']'') (rep_lazy (atom_match True anything) 0 k)"
  have t1: "k1 q ('']'' @ rest) = Some (Some (if rest = [] then CHR '']'' else last rest), [])" for q
    using m_lit[of "'']''" "rep_lazy (atom_match True anything) 0 k" q rest] lazy
    by (simp add: k1_def)
  have hs: "\<forall>w \<in> set blockHeaders. w \<noteq> [] \<and> (w \<noteq> h \<longrightarrow> canonicalize (hd w) \<noteq> canonicalize (hd h))"
    using assms(1) by (auto simp: blockHeaders_def canonicalize_bits)
  from assms(1) have hne: "h \<noteq> []" by (auto simp: blockHeaders_def)
  have w: "m True (words blockHeaders) k1 q (h @ '']'' @ rest) =
             Some (Some (if rest = [] then CHR '']'' else last rest), [])" for q
    using m_words_pick[where h = h and ws = blockHeaders and k = k1 and s = "'']'' @ rest"
            and p = q, OF assms(1) hne hs t1] .
  have b: "body CONTEXT_BLOCK_PATTERN =
             Seq (lit ''['') (Seq (words blockHeaders)
               (Seq (lit '']'') (Seq (Rep anything 0 Lazy) (Seq LA Empty))))"
    by (simp only: CONTEXT_BLOCK_PATTERN_def re_gi_def LA_def blockHeaders_def jsregex.simps
          seqs_def foldr.simps o_apply id_apply)
  have "m True (body CONTEXT_BLOCK_PATTERN) k0 =
          m True (lit ''['') (m True (words blockHeaders) k1)"
    by (simp only: b m_Seq_fun m_Empty_fun m_Lazy_fun k1_def k_def)
  then have "m True (body CONTEXT_BLOCK_PATTERN) k0 p (''['' @ h @ '']'' @ rest) =
          m True (words blockHeaders) k1 (Some CHR ''['') (h @ '']'' @ rest)"
    using m_lit[of "''[''" "m True (words blockHeaders) k1" p "h @ '']'' @ rest"]
    by simp
  with w[of "Some CHR ''[''"] show ?thesis by (simp add: match_here_def k0_def)
qed

lemma block_no_match_at_end: "match_here True (body CONTEXT_BLOCK_PATTERN) p [] = None"
  by (simp add: match_here_def CONTEXT_BLOCK_PATTERN_def re_gi_def seqs_def lit_def)

lemma strip_nothing:
  "trim (join [CHR 0x0A]
     (filter (\<lambda>line. \<not> injectedLine line)
        (splitOn (CHR 0x0A) (replace TIMESTAMP_PREFIX [] [])))) = []"
  by code_simp

lemma stripContextBlocks_block:
  assumes "h \<in> set blockHeaders" and "CHR ''['' \<notin> set rest"
  shows "stripContextBlocks (''['' @ h @ '']'' @ rest) = []"
proof -
  let ?s = "''['' @ h @ '']'' @ rest"
  have e: "replaceFrom True (body CONTEXT_BLOCK_PATTERN) [] q [] = []" for q
    by (subst replaceFrom.simps) (simp add: block_no_match_at_end)
  have "replaceFrom True (body CONTEXT_BLOCK_PATTERN) [] None ?s = []"
    by (subst replaceFrom.simps) (simp add: block_match[OF assms, simplified] e)
  then have "replace CONTEXT_BLOCK_PATTERN [] ?s = []"
    by (simp add: replace_def CONTEXT_BLOCK_PATTERN_def re_gi_def)
  then show ?thesis
    by (simp only: stripContextBlocks_def Let_def strip_nothing)
qed

lemma nothing_left: "replace TABLE_ROW [] (replace CODE_FENCE [] []) = []"
  by code_simp

lemma block_then_text_yields_nothing:
  assumes "h \<in> set blockHeaders" and "CHR ''['' \<notin> set rest"
  shows "identifyGaps clk st (a\<lparr>messages := [userMessage (''['' @ h @ '']'' @ rest)]\<rparr>)
           = Inr ([], st)"
proof -
  have "conversationParts [userMessage (''['' @ h @ '']'' @ rest)] = Inr []"
    by (simp add: userMessage_def nullish_def normalizeText_def Let_def
          stripContextBlocks_block[OF assms, simplified] nothing_left)
  then show ?thesis
    by (simp add: identifyGaps_def corpus_def slice_last_def)
qed

text \<open>
  Claim C5. A user message that is a context block followed by a sentence that pass 1
  would extract yields no gap: CONTEXT_BLOCK_PATTERN runs from the header to the next
  header or to the end of the text, so stripContextBlocks removes the sentence with the
  block.
\<close>

theorem text_after_block_is_lost:
  "stripContextBlocks (injectedBlock @ tidalQuestion) = [] \<and>
   identifyGaps clk st
     \<lparr>messages = [userMessage (injectedBlock @ tidalQuestion)], entropy = Some 0.8,
      extractionConfig = cfg, source = src\<rparr>
   = Inr ([], st)"
proof
  show "stripContextBlocks (injectedBlock @ tidalQuestion) = []" by code_simp
next
  show "identifyGaps clk st
     \<lparr>messages = [userMessage (injectedBlock @ tidalQuestion)], entropy = Some 0.8,
      extractionConfig = cfg, source = src\<rparr>
   = Inr ([], st)"
    by (simp add: identifyGaps_def corpus_injected)
qed

section \<open>Malformed entries\<close>

lemma normalizeText_tolerates_null:
  "normalizeText JNull = Inr [] \<and> normalizeText JUndefined = Inr []"
  by (simp add: normalizeText_def)

lemma own_toString_throws:
  "identifyGaps clk st
     (a\<lparr>messages := [JObj [(''role'', JStr ''user''),
                            (''content'', JObj [(''toString'', JNull)])]]\<rparr>)
   = Inl TypeError"
  by (simp add: identifyGaps_def corpus_def slice_last_def nullish_def normalizeText_def
        jsOr_def)

text \<open>
  Claim C6. A null entry among the last six messages makes identifyGaps throw a
  TypeError: the loop reads \<open>msg.role\<close> before normalizeText, whose own guard
  tolerates a null message, is called.
\<close>

theorem identifyGaps_null_entry_throws:
  "identifyGaps clk st (a\<lparr>messages := [JNull]\<rparr>) = Inl TypeError"
  by (simp add: identifyGaps_def corpus_def slice_last_def nullish_def)

section \<open>Running the extraction twice\<close>

lemma stableFields_wrap:
  "map (stableFields \<circ> wrap clk a tx) (enumerate k qs) =
     map (\<lambda>q. (q, take 1200 tx, entropyOf a)) qs"
  by (induction qs arbitrary: k) (simp_all add: wrap_def stableFields_def)

text \<open>
  Claim C7. Two runs on the same messages, entropy and configuration yield the same
  output, the sequence of gap strings, and the same failure when the call throws,
  whatever the clock reads and whatever lastIndex the earlier run left in the
  GAP_PATTERNS; they also agree on the context and the entropy of every gap, and with
  the same clock readings on the whole records.
\<close>

theorem extraction_repeatable:
  "questionsOf (identifyGaps clk1 st1 a) = questionsOf (identifyGaps clk2 st2 a) \<and>
   map_sum id (map stableFields \<circ> fst) (identifyGaps clk1 st1 a) =
   map_sum id (map stableFields \<circ> fst) (identifyGaps clk2 st2 a) \<and>
   map_sum id fst (identifyGaps clk st1 a) = map_sum id fst (identifyGaps clk st2 a)"
proof (intro conjI)
  show "questionsOf (identifyGaps clk1 st1 a) = questionsOf (identifyGaps clk2 st2 a)"
    by (rule questionsOf_free)
next
  show "map_sum id (map stableFields \<circ> fst) (identifyGaps clk1 st1 a) =
        map_sum id (map stableFields \<circ> fst) (identifyGaps clk2 st2 a)"
  proof (cases "corpus (messages a)")
    case (Inl e)
    then show ?thesis by (simp add: identifyGaps_def)
  next
    case (Inr tx)
    from extractGapsFromText_state_free[of tx "maxGapsOf (extractionConfig a)" st1 st2] Inr
    show ?thesis
      by (cases "extractGapsFromText tx (maxGapsOf (extractionConfig a)) st1";
          cases "extractGapsFromText tx (maxGapsOf (extractionConfig a)) st2")
         (auto simp: identifyGaps_def stableFields_wrap)
  qed
next
  show "map_sum id fst (identifyGaps clk st1 a) = map_sum id fst (identifyGaps clk st2 a)"
  proof (cases "corpus (messages a)")
    case (Inl e)
    then show ?thesis by (simp add: identifyGaps_def)
  next
    case (Inr tx)
    from extractGapsFromText_state_free[of tx "maxGapsOf (extractionConfig a)" st1 st2] Inr
    show ?thesis
      by (cases "extractGapsFromText tx (maxGapsOf (extractionConfig a)) st1";
          cases "extractGapsFromText tx (maxGapsOf (extractionConfig a)) st2")
         (auto simp: identifyGaps_def)
  qed
qed

text \<open>
  The records identifyGaps wraps the gap strings in hold a reading of the clock in
  their id, so the records of two runs differ where the clock does.
\<close>

lemma showNat_digit: "showNat 0 = ''0'' \<and> showNat (Suc 0) = ''1''"
  by code_simp

lemma gap_id_reads_clock:
  "map gap_id (fst (projr (identifyGaps (clockAt 0) [] (exchange [tidalQuestion] None))))
     = [''gap_0_0''] \<and>
   map gap_id (fst (projr (identifyGaps (clockAt 1) [] (exchange [tidalQuestion] None))))
     = [''gap_1_0'']"
proof -
  let ?a = "exchange [tidalQuestion] None"
  have n: "maxGapsOf (extractionConfig ?a) \<in> {2, - 1}" by (simp add: exchange_def maxGapsOf_def)
  from tidal_eval[OF n, of "clockAt 0" "[]"] obtain s0 where
    r0: "identifyGaps (clockAt 0) [] ?a =
           Inr ([wrap (clockAt 0) ?a tidalQuestion (0, tidalQuestion)], s0)" by blast
  from tidal_eval[OF n, of "clockAt 1" "[]"] obtain s1 where
    r1: "identifyGaps (clockAt 1) [] ?a =
           Inr ([wrap (clockAt 1) ?a tidalQuestion (0, tidalQuestion)], s1)" by blast
  have "gap_id (wrap (clockAt 0) ?a tidalQuestion (0, tidalQuestion)) = ''gap_0_0''"
    by (simp add: wrap_def clockAt_def showNat_digit)
  moreover have "gap_id (wrap (clockAt 1) ?a tidalQuestion (0, tidalQuestion)) = ''gap_1_0''"
    by (simp add: wrap_def clockAt_def showNat_digit)
  ultimately show ?thesis using r0 r1 by simp
qed

section \<open>Scenarios\<close>

text \<open>
  Claim C8, as the code has it. The two sentences differ in their normalized forms, so
  neither is a duplicate of the other: with the admission gate passed and a cap of at
  least 2, both appear in the output, in the order of the messages.
\<close>

theorem near_duplicates_both_survive:
  assumes "messages a = [userMessage cascadesHere, userMessage cascades]"
    and "2 \<le> maxGapsOf (extractionConfig a)"
    and "\<not> (entropyOf a < thresholdOf (extractionConfig a) \<and>
            \<not> keywordHit (keywordsOf (extractionConfig a))
                 (cascadesHere @ [CHR 0x0A, CHR 0x0A] @ cascades))"
  shows "questionsOf (identifyGaps clk st a) = Inr [cascadesHere, cascades]"
  using cascades_eval[OF assms(2,1,3), of clk st]
  by (auto simp: questionsOf_def wrap_def)

theorem near_duplicates_both_survive_witness:
  "questionsOf (identifyGaps (clockAt 0) [] (exchange [cascadesHere, cascades] (Some 3)))
     = Inr [cascadesHere, cascades]"
  by (rule near_duplicates_both_survive)
     (simp_all add: exchange_def maxGapsOf_def entropyOf_def thresholdOf_def)

theorem near_duplicates_counterexample:
  "questionsOf (identifyGaps (clockAt 0) [] (exchange [cascadesHere, cascades] None))
     = Inr [cascadesHere, cascades]"
proof -
  let ?a = "exchange [cascadesHere, cascades] None"
  have "2 \<le> maxGapsOf (extractionConfig ?a)" by (simp add: exchange_def maxGapsOf_def)
  moreover have "messages ?a = [userMessage cascadesHere, userMessage cascades]"
    by (simp add: exchange_def)
  moreover have "\<not> (entropyOf ?a < thresholdOf (extractionConfig ?a) \<and>
            \<not> keywordHit (keywordsOf (extractionConfig ?a))
                 (cascadesHere @ [CHR 0x0A, CHR 0x0A] @ cascades))"
    by (rule exchange_open)
  ultimately have "\<exists>st'. identifyGaps (clockAt 0) [] ?a =
          Inr (map (wrap (clockAt 0) ?a (cascadesHere @ [CHR 0x0A, CHR 0x0A] @ cascades))
                 (enumerate 0 [cascadesHere, cascades]), st')"
    by (rule cascades_eval)
  then show ?thesis by (auto simp: questionsOf_def wrap_def)
qed

lemma tidal_prefix: "startsWith tidalQuestion ''I wonder how the tidal patterns''"
  by code_simp

text \<open>
  Claim C9. For the single user message of the scenario, entropy 0.8, threshold 0.5 and
  the rest of the configuration at its defaults, identifyGaps returns exactly one gap;
  its question is the whole sentence, which begins with the words of the claim.
\<close>

theorem tidal_scenario:
  "\<exists>g st'. identifyGaps clk st (exchange [tidalQuestion] None) = Inr ([g], st') \<and>
            question g = tidalQuestion \<and>
            startsWith (question g) ''I wonder how the tidal patterns''"
proof -
  let ?a = "exchange [tidalQuestion] None"
  have "maxGapsOf (extractionConfig ?a) \<in> {2, - 1}" by (simp add: exchange_def maxGapsOf_def)
  from tidal_eval[OF this, of clk st] obtain st' where
    "identifyGaps clk st ?a = Inr ([wrap clk ?a tidalQuestion (0, tidalQuestion)], st')"
    by blast
  moreover have "question (wrap clk ?a tidalQuestion (0, tidalQuestion)) = tidalQuestion"
    by (simp add: wrap_def)
  ultimately show ?thesis using tidal_prefix by auto
qed

section \<open>The window\<close>

lemma slice_last_append: "length w = n \<Longrightarrow> slice_last n (p @ w) = w"
  by (simp add: slice_last_def)

text \<open>
  Claim C10. identifyGaps reads the last six messages only: two lists of messages that end
  in the same six entries give the same result, and the same questions whatever the
  clocks and the lastIndex values of the two calls.
\<close>

theorem window_of_six:
  assumes "length w = 6"
  shows "identifyGaps clk st (a\<lparr>messages := p1 @ w\<rparr>) =
           identifyGaps clk st (a\<lparr>messages := p2 @ w\<rparr>) \<and>
         questionsOf (identifyGaps clk1 st1 (a\<lparr>messages := p1 @ w\<rparr>)) =
           questionsOf (identifyGaps clk2 st2 (a\<lparr>messages := p2 @ w\<rparr>))"
proof -
  have c: "corpus (p1 @ w) = corpus (p2 @ w)"
    using assms by (simp add: corpus_def slice_last_append)
  have same: "identifyGaps clk st (a\<lparr>messages := p1 @ w\<rparr>) =
                identifyGaps clk st (a\<lparr>messages := p2 @ w\<rparr>)" for clk st
  proof -
    have e: "entropyOf (a\<lparr>messages := ms\<rparr>) = entropyOf a" for ms
      by (simp add: entropyOf_def)
    have x: "extractionConfig (a\<lparr>messages := ms\<rparr>) = extractionConfig a" for ms
      by simp
    have w: "wrap clk (a\<lparr>messages := ms\<rparr>) = wrap clk a" for ms
      by (simp add: fun_eq_iff wrap_def entropyOf_def)
    have m: "messages (a\<lparr>messages := ms\<rparr>) = ms" for ms
      by simp
    show ?thesis by (simp only: identifyGaps_def e x w m c)
  qed
  from same[of clk2 st2]
    questionsOf_free[of clk1 st1 "a\<lparr>messages := p1 @ w\<rparr>" clk2 st2]
  show ?thesis using same[of clk st] by simp
qed

theorem window_of_six_witness:
  "identifyGaps (clockAt 0) []
     ((exchange [] None)\<lparr>messages := [JNull, userMessage cascades] @
                                      replicate 6 (userMessage tidalQuestion)\<rparr>) =
   identifyGaps (clockAt 0) []
     ((exchange [] None)\<lparr>messages := [] @ replicate 6 (userMessage tidalQuestion)\<rparr>)"
  using window_of_six[where w = "replicate 6 (userMessage tidalQuestion)"
          and clk = "clockAt 0" and st = "[]" and a = "exchange [] None"
          and ?p1.0 = "[JNull, userMessage cascades]" and ?p2.0 = "[]"]
  by simp

end
